theory Spec2Isabelle
  imports Complex_Main "HOL-Library.AList"
begin

section \<open>Node ranking of FaultMap: a model of the ranking core\<close>

text \<open>
  The theory embeds the functions of \<^verbatim>\<open>ranking/noderank.py\<close> and
  \<^verbatim>\<open>ranking/formatmatrices.py\<close> that build the signal-flow graph and rank its
  nodes. Scores and gains are floating-point numbers in the source; here they are
  real numbers, so every statement about them is a statement about the arithmetic
  the source performs, without rounding. An exception raised by the source is a
  value \<open>Inl e\<close> of the result.
\<close>

subsection \<open>Errors and dictionaries\<close>

datatype error =
    IndexError
  | KeyError
  | ValueError
  | ZeroDivisionError
  | LinAlgError
  | NetworkXError
  | NonFinite

text \<open>
  A Python dictionary with string keys is an association list with one entry per
  key. Reading a missing key raises \<open>KeyError\<close>; storing replaces the value of a
  key that is present and appends a new key otherwise. The list fixes the order in
  which the keys are visited as the order in which they were inserted; the
  interpreter of the source leaves that order open, and of the functions below only
  the order of the rows and columns that \<open>buildcase\<close> returns depends on it.
\<close>

type_synonym 'v dict = "(string \<times> 'v) list"

definition dict_get :: "'v dict \<Rightarrow> string \<Rightarrow> error + 'v" where
  "dict_get d k = (case map_of d k of None \<Rightarrow> Inl KeyError | Some v \<Rightarrow> Inr v)"

definition dict_set :: "'v dict \<Rightarrow> string \<Rightarrow> 'v \<Rightarrow> 'v dict" where
  "dict_set d k v = AList.update k v d"

definition dict_values :: "'v dict \<Rightarrow> 'v list" where
  "dict_values d = map snd d"

text \<open>
  \<^verbatim>\<open>sorted(d.iteritems(), key=operator.itemgetter(1), reverse=True)\<close>: a stable
  sort by descending score; with \<^verbatim>\<open>reverse=True\<close> entries of equal score keep
  their order.
\<close>

definition sorted_by_score :: "real dict \<Rightarrow> (string \<times> real) list" where
  "sorted_by_score d = rev (sort_key snd (rev d))"

subsection \<open>\<^verbatim>\<open>calc_blended_rank\<close>\<close>

text \<open>
  The scores that \<^verbatim>\<open>calc_blended_rank\<close> divides are numpy floats, as
  \<^verbatim>\<open>calc_simple_rank\<close> produces them: a division by zero raises nothing and gives
  \<open>nan\<close> (for \<open>0/0\<close>) or an infinity. A numpy float is a real number or one of
  these three values; \<open>np_divide\<close> divides one by a real divisor (a zero divisor is
  the positive zero that a sum of absolute values gives), and \<open>np_less\<close> is the
  comparison \<open><\<close>, false whenever \<open>nan\<close> takes part.
\<close>

datatype npfloat = Fin real | PInf | NInf | NaN

definition np_divide :: "npfloat \<Rightarrow> real \<Rightarrow> npfloat" where
  "np_divide x t =
     (case x of
        Fin a \<Rightarrow> if t \<noteq> 0 then Fin (a / t)
                 else if a = 0 then NaN else if 0 < a then PInf else NInf
      | PInf \<Rightarrow> if t < 0 then NInf else PInf
      | NInf \<Rightarrow> if t < 0 then PInf else NInf
      | NaN \<Rightarrow> NaN)"

fun np_less :: "npfloat \<Rightarrow> npfloat \<Rightarrow> bool" where
  "np_less (Fin a) (Fin b) = (a < b)"
| "np_less NaN y = False"
| "np_less x NaN = False"
| "np_less x NInf = False"
| "np_less NInf y = True"
| "np_less PInf y = False"
| "np_less x PInf = True"

text \<open>
  \<^verbatim>\<open>sorted(..., key=operator.itemgetter(1), reverse=True)\<close> on such scores: the
  list is reversed, sorted in ascending order by stable insertion with \<open><\<close>, and
  reversed again. On scores that are all \<open>nan\<close> no comparison holds and the list
  comes back as it is, which is what Python's sort returns there; a dictionary of
  \<^verbatim>\<open>calc_blended_rank\<close> holds either no \<open>nan\<close> or nothing else.
\<close>

fun np_insort :: "string \<times> npfloat \<Rightarrow> (string \<times> npfloat) list \<Rightarrow> (string \<times> npfloat) list" where
  "np_insort x [] = [x]"
| "np_insort x (y # ys) = (if np_less (snd y) (snd x) then y # np_insort x ys else x # y # ys)"

definition sorted_by_npscore :: "npfloat dict \<Rightarrow> (string \<times> npfloat) list" where
  "sorted_by_npscore d = rev (foldr np_insort (rev d) [])"

text \<open>
  The first loop of \<^verbatim>\<open>calc_blended_rank\<close> stores
  \<^verbatim>\<open>abs((1 - alpha) * forwardrank[v] + alpha * backwardrank[v])\<close> for each variable
  of the list; the scores read from the two dictionaries are real numbers, so these
  values are. The second loop divides the entry of each variable of the list by the
  total of the dictionary's values, reading the entry from the dictionary it is
  changing.
\<close>

fun blend_loop :: "real dict \<Rightarrow> real dict \<Rightarrow> real \<Rightarrow> string list \<Rightarrow> real dict
    \<Rightarrow> error + real dict" where
  "blend_loop forwardrank backwardrank alpha [] rankingdict = Inr rankingdict"
| "blend_loop forwardrank backwardrank alpha (variable # rest) rankingdict =
     (case dict_get forwardrank variable of
        Inl e \<Rightarrow> Inl e
      | Inr f \<Rightarrow>
          (case dict_get backwardrank variable of
             Inl e \<Rightarrow> Inl e
           | Inr b \<Rightarrow>
               blend_loop forwardrank backwardrank alpha rest
                 (dict_set rankingdict variable (\<bar>(1 - alpha) * f + alpha * b\<bar>))))"

fun divide_loop :: "real \<Rightarrow> string list \<Rightarrow> npfloat dict \<Rightarrow> error + npfloat dict" where
  "divide_loop tot [] rankingdict = Inr rankingdict"
| "divide_loop tot (variable # rest) rankingdict =
     (case dict_get rankingdict variable of
        Inl e \<Rightarrow> Inl e
      | Inr x \<Rightarrow> divide_loop tot rest (dict_set rankingdict variable (np_divide x tot)))"

definition calc_blended_rank :: "real dict \<Rightarrow> real dict \<Rightarrow> string list \<Rightarrow> real
    \<Rightarrow> error + (npfloat dict \<times> (string \<times> npfloat) list)" where
  "calc_blended_rank forwardrank backwardrank variablelist alpha =
     (case blend_loop forwardrank backwardrank alpha variablelist [] of
        Inl e \<Rightarrow> Inl e
      | Inr rankingdict \<Rightarrow>
          (case divide_loop (sum_list (dict_values rankingdict)) variablelist
                  (map (\<lambda>(variable, x). (variable, Fin x)) rankingdict) of
             Inl e \<Rightarrow> Inl e
           | Inr normalised \<Rightarrow> Inr (normalised, sorted_by_npscore normalised)))"

subsection \<open>\<^verbatim>\<open>calc_transient_importancediffs\<close>\<close>

text \<open>
  For one variable, the inner loop walks the boxes after the first and records the
  score of each box minus the score of the box before it.
\<close>

fun diff_loop :: "string \<Rightarrow> real dict list \<Rightarrow> real \<Rightarrow> error + real list" where
  "diff_loop variable [] prev_importance = Inr []"
| "diff_loop variable (rankingdict # rest) prev_importance =
     (case dict_get rankingdict variable of
        Inl e \<Rightarrow> Inl e
      | Inr x \<Rightarrow>
          (case diff_loop variable rest x of
             Inl e \<Rightarrow> Inl e
           | Inr diffvect \<Rightarrow> Inr ((x - prev_importance) # diffvect)))"

text \<open>
  The outer loop: \<^verbatim>\<open>np.empty((1, len(rankingdicts) - 1))\<close> raises \<open>ValueError\<close> on
  an empty sequence of boxes; \<^verbatim>\<open>rankingdicts[0][variable]\<close> is the base value.
\<close>

fun transient_loop :: "real dict list \<Rightarrow> string list \<Rightarrow> real list dict \<times> real dict
    \<Rightarrow> error + (real list dict \<times> real dict)" where
  "transient_loop rankingdicts [] acc = Inr acc"
| "transient_loop rankingdicts (variable # rest) (transientdict, basevaldict) =
     (case rankingdicts of
        [] \<Rightarrow> Inl ValueError
      | first # others \<Rightarrow>
          (case dict_get first variable of
             Inl e \<Rightarrow> Inl e
           | Inr base \<Rightarrow>
               (case diff_loop variable others base of
                  Inl e \<Rightarrow> Inl e
                | Inr diffvect \<Rightarrow>
                    transient_loop rankingdicts rest
                      (dict_set transientdict variable diffvect,
                       dict_set basevaldict variable base))))"

definition calc_transient_importancediffs :: "real dict list \<Rightarrow> string list
    \<Rightarrow> error + (real list dict \<times> real dict)" where
  "calc_transient_importancediffs rankingdicts variablelist =
     transient_loop rankingdicts variablelist ([], [])"

subsection \<open>Matrices\<close>

text \<open>
  A numpy matrix is its shape and its entries. Reading outside the shape raises
  \<open>IndexError\<close> (the indices of the source are never negative). \<open>.T\<close> is the
  transpose.
\<close>

record 'a matrix =
  nrows :: nat
  ncols :: nat
  entry :: "nat \<Rightarrow> nat \<Rightarrow> 'a"

definition mget :: "'a matrix \<Rightarrow> nat \<Rightarrow> nat \<Rightarrow> error + 'a" where
  "mget M row col =
     (if row < nrows M \<and> col < ncols M then Inr (entry M row col) else Inl IndexError)"

definition T :: "'a matrix \<Rightarrow> 'a matrix" where
  "T M = \<lparr>nrows = ncols M, ncols = nrows M, entry = (\<lambda>i j. entry M j i)\<rparr>"

subsection \<open>Directed graphs\<close>

text \<open>
  A networkx \<open>DiGraph\<close> is a dictionary of dictionaries: each node is a key and its
  value is the dictionary of its successors with the weight of each edge.
  \<open>add_edge u v\<close> adds \<open>u\<close>, then \<open>v\<close>, when they are not nodes yet, and stores the
  weight, replacing the weight of an edge that exists.

  The keys are kept here in the order the nodes were added, and \<open>nodes\<close> lists them in
  that order. The interpreter of the source iterates a dictionary in the order of its
  hash table, which is another order of the same keys. The properties below are
  therefore stated of the set of nodes, of degrees, of weights and of the dimensions
  of the matrices read from a graph; none is stated of the position a node has in
  the list.
\<close>

type_synonym digraph = "real dict dict"

definition DiGraph :: digraph where
  "DiGraph = []"

definition nodes :: "digraph \<Rightarrow> string list" where
  "nodes g = map fst g"

definition succ :: "digraph \<Rightarrow> string \<Rightarrow> real dict" where
  "succ g u = (case map_of g u of None \<Rightarrow> [] | Some s \<Rightarrow> s)"

definition weight :: "digraph \<Rightarrow> string \<Rightarrow> string \<Rightarrow> real option" where
  "weight g u v = map_of (succ g u) v"

definition add_node :: "digraph \<Rightarrow> string \<Rightarrow> digraph" where
  "add_node g n = (case map_of g n of None \<Rightarrow> dict_set g n [] | Some s \<Rightarrow> g)"

definition add_edge :: "digraph \<Rightarrow> string \<Rightarrow> string \<Rightarrow> real \<Rightarrow> digraph" where
  "add_edge g u v w =
     (let g' = add_node (add_node g u) v
      in dict_set g' u (dict_set (succ g' u) v w))"

definition out_degree :: "digraph \<Rightarrow> string \<Rightarrow> nat" where
  "out_degree g n = length (succ g n)"

definition in_degree :: "digraph \<Rightarrow> string \<Rightarrow> nat" where
  "in_degree g n = length (filter (\<lambda>u. weight g u n \<noteq> None) (nodes g))"

text \<open>
  \<open>reverse\<close> gives a new graph with the same nodes, in the same order, and every
  edge turned round.
\<close>

definition reverse :: "digraph \<Rightarrow> digraph" where
  "reverse g =
     fold (\<lambda>(u, v, w) h. add_edge h v u w)
       (concat (map (\<lambda>(u, s). map (\<lambda>(v, w). (u, v, w)) s) g))
       (fold (\<lambda>n h. add_node h n) (nodes g) DiGraph)"

text \<open>
  \<open>to_numpy_matrix\<close>: rows and columns follow the order of the nodes; the entry at
  \<open>(i, j)\<close> is the weight of the edge from node \<open>i\<close> to node \<open>j\<close>, or 1 for each
  edge when called with \<^verbatim>\<open>weight=None\<close>, and 0 where there is no edge.
\<close>

definition to_numpy_matrix :: "digraph \<Rightarrow> bool \<Rightarrow> real matrix" where
  "to_numpy_matrix g weighted =
     \<lparr>nrows = length (nodes g), ncols = length (nodes g),
      entry = (\<lambda>i j.
        if i < length (nodes g) \<and> j < length (nodes g)
        then (case weight g (nodes g ! i) (nodes g ! j) of
                None \<Rightarrow> 0
              | Some w \<Rightarrow> if weighted then w else 1)
        else 0)\<rparr>"

subsection \<open>\<^verbatim>\<open>buildgraph\<close>\<close>

text \<open>
  The two nested loops of \<^verbatim>\<open>buildgraph\<close> over \<^verbatim>\<open>enumerate(variables)\<close>: the outer
  one over the columns, the inner one over the rows. The gain is read only where the
  connection entry is not zero. The graph starts empty and nodes enter it through
  \<open>add_edge\<close> only.
\<close>

fun buildgraph_rows :: "real matrix \<Rightarrow> real matrix \<Rightarrow> nat \<Rightarrow> string
    \<Rightarrow> (nat \<times> string) list \<Rightarrow> digraph \<Rightarrow> error + digraph" where
  "buildgraph_rows gainmatrix connections col colvar [] m_graph = Inr m_graph"
| "buildgraph_rows gainmatrix connections col colvar ((row, rowvar) # rest) m_graph =
     (case mget connections row col of
        Inl e \<Rightarrow> Inl e
      | Inr c \<Rightarrow>
          if c \<noteq> 0 then
            (case mget gainmatrix row col of
               Inl e \<Rightarrow> Inl e
             | Inr w \<Rightarrow>
                 buildgraph_rows gainmatrix connections col colvar rest
                   (add_edge m_graph colvar rowvar w))
          else buildgraph_rows gainmatrix connections col colvar rest m_graph)"

fun buildgraph_cols :: "string list \<Rightarrow> real matrix \<Rightarrow> real matrix
    \<Rightarrow> (nat \<times> string) list \<Rightarrow> digraph \<Rightarrow> error + digraph" where
  "buildgraph_cols variables gainmatrix connections [] m_graph = Inr m_graph"
| "buildgraph_cols variables gainmatrix connections ((col, colvar) # rest) m_graph =
     (case buildgraph_rows gainmatrix connections col colvar (List.enumerate 0 variables) m_graph of
        Inl e \<Rightarrow> Inl e
      | Inr g \<Rightarrow> buildgraph_cols variables gainmatrix connections rest g)"

definition buildgraph :: "string list \<Rightarrow> real matrix \<Rightarrow> real matrix \<Rightarrow> error + digraph" where
  "buildgraph variables gainmatrix connections =
     buildgraph_cols variables gainmatrix connections (List.enumerate 0 variables) DiGraph"

subsection \<open>\<^verbatim>\<open>buildcase\<close>\<close>

text \<open>\<open>str\<close> of a counter: its decimal digits.\<close>

definition digit_char :: "nat \<Rightarrow> char" where
  "digit_char d = ''0123456789'' ! d"

fun str :: "nat \<Rightarrow> string" where
  "str n = (if n < 10 then [digit_char n] else str (n div 10) @ [digit_char (n mod 10)])"

declare str.simps [simp del]

text \<open>
  The loop of \<^verbatim>\<open>buildcase\<close> runs over the list of nodes taken before the loop
  starts (\<open>nodes()\<close> returns a list), tests the out-degree in the graph as it is at
  that moment, and adds an edge to the node named \<open>name + str(counter)\<close>.
\<close>

fun buildcase_loop :: "real \<Rightarrow> string \<Rightarrow> string list \<Rightarrow> nat \<times> digraph \<Rightarrow> nat \<times> digraph" where
  "buildcase_loop dummyweight name [] (counter, m_graph) = (counter, m_graph)"
| "buildcase_loop dummyweight name (node # rest) (counter, m_graph) =
     (if out_degree m_graph node = 1
      then buildcase_loop dummyweight name rest
             (counter + 1, add_edge m_graph node (name @ str counter) dummyweight)
      else buildcase_loop dummyweight name rest (counter, m_graph))"

text \<open>
  The graph is an object the caller holds: \<^verbatim>\<open>buildcase\<close> receives a reference to it
  and changes it in place. A store maps references to graphs; the function returns
  its three results and the store after the call.
\<close>

type_synonym store = "nat \<Rightarrow> digraph"

definition buildcase :: "real \<Rightarrow> nat \<Rightarrow> string \<Rightarrow> store
    \<Rightarrow> (real matrix \<times> real matrix \<times> string list) \<times> store" where
  "buildcase dummyweight m_graph name st =
     (let st' = st(m_graph := snd (buildcase_loop dummyweight name (nodes (st m_graph))
                                     (1, st m_graph)));
          connection = T (to_numpy_matrix (st' m_graph) False);
          gain = T (to_numpy_matrix (st' m_graph) True);
          variablelist = nodes (st' m_graph)
      in ((connection, gain, variablelist), st'))"

subsection \<open>\<^verbatim>\<open>rankforward\<close> and \<^verbatim>\<open>rankbackward\<close>\<close>

text \<open>
  Both build a graph of their own, held at reference 0 of a store of their own, and
  hand it to \<^verbatim>\<open>buildcase\<close>; \<^verbatim>\<open>rankbackward\<close> builds it from the transposed
  matrices.
\<close>

definition rankforward :: "string list \<Rightarrow> real matrix \<Rightarrow> real matrix \<Rightarrow> real
    \<Rightarrow> error + (real matrix \<times> real matrix \<times> string list)" where
  "rankforward variables gainmatrix connections dummyweight =
     (case buildgraph variables gainmatrix connections of
        Inl e \<Rightarrow> Inl e
      | Inr m_graph \<Rightarrow>
          Inr (fst (buildcase dummyweight 0 ''DV_forward'' ((\<lambda>_. DiGraph)(0 := m_graph)))))"

definition rankbackward :: "string list \<Rightarrow> real matrix \<Rightarrow> real matrix \<Rightarrow> real
    \<Rightarrow> error + (real matrix \<times> real matrix \<times> string list)" where
  "rankbackward variables gainmatrix connections dummyweight =
     (case buildgraph variables (T gainmatrix) (T connections) of
        Inl e \<Rightarrow> Inl e
      | Inr m_graph \<Rightarrow>
          Inr (fst (buildcase dummyweight 0 ''DV_backward'' ((\<lambda>_. DiGraph)(0 := m_graph)))))"

subsection \<open>Well-formed graphs\<close>

text \<open>
  What every networkx graph satisfies: a node is listed once, a successor is listed
  once in the dictionary of its node, and every successor is a node.
\<close>

definition wf_graph :: "digraph \<Rightarrow> bool" where
  "wf_graph g \<longleftrightarrow>
     distinct (nodes g) \<and>
     (\<forall>u. distinct (map fst (succ g u)) \<and> fst ` set (succ g u) \<subseteq> set (nodes g))"

text \<open>The nodes of a list that have exactly one outgoing edge.\<close>

definition singles :: "digraph \<Rightarrow> string list \<Rightarrow> string list" where
  "singles g xs = filter (\<lambda>u. out_degree g u = 1) xs"

text \<open>No node of the graph carries a name that \<^verbatim>\<open>buildcase\<close> can give to a dummy.\<close>

definition fresh_names :: "string \<Rightarrow> digraph \<Rightarrow> bool" where
  "fresh_names name g \<longleftrightarrow> (\<forall>k. name @ str k \<notin> set (nodes g))"

text \<open>The graph the loop of \<^verbatim>\<open>buildcase\<close> leaves behind.\<close>

definition augmented :: "real \<Rightarrow> string \<Rightarrow> digraph \<Rightarrow> digraph" where
  "augmented w name g = snd (buildcase_loop w name (nodes g) (1, g))"

subsection \<open>\<^verbatim>\<open>calc_simple_rank\<close>\<close>

text \<open>
  Three functions of numpy and networkx decide what \<^verbatim>\<open>calc_simple_rank\<close> returns and
  are not part of the repository; they are parameters of the model. \<open>None\<close> stands
  for the exception the function raises (\<open>LinAlgError\<close>, or \<open>NetworkXError\<close> when
  an iteration does not converge). The eigenvalues and the eigenvectors are complex
  numbers, the eigenvectors being the columns of a matrix.
\<close>

record libraries =
  eig :: "real matrix \<Rightarrow> (complex list \<times> complex matrix) option"
  eigenvector_centrality :: "digraph \<Rightarrow> real dict option"
  katz_centrality :: "digraph \<Rightarrow> real \<Rightarrow> real \<Rightarrow> nat \<Rightarrow> real dict option"

text \<open>\<^verbatim>\<open>np.sum(abs(M[:, col]))\<close> and the assignment \<^verbatim>\<open>M[:, col] = M[:, col] / c\<close>.\<close>

definition colsum :: "real matrix \<Rightarrow> nat \<Rightarrow> real" where
  "colsum M col = sum_list (map (\<lambda>row. \<bar>entry M row col\<bar>) [0..<nrows M])"

definition divide_col :: "real matrix \<Rightarrow> nat \<Rightarrow> real \<Rightarrow> real matrix" where
  "divide_col M col c = M\<lparr>entry := (\<lambda>row j. if j = col then entry M row j / c else entry M row j)\<rparr>"

text \<open>
  The first loop: a column whose absolute sum is zero is skipped, any other is
  divided by its absolute sum. Slicing a column that the matrix does not have raises
  \<open>IndexError\<close>.
\<close>

fun normalise_gain_cols :: "nat list \<Rightarrow> real matrix \<Rightarrow> error + real matrix" where
  "normalise_gain_cols [] gainmatrix = Inr gainmatrix"
| "normalise_gain_cols (col # rest) gainmatrix =
     (if ncols gainmatrix \<le> col then Inl IndexError
      else if colsum gainmatrix col = 0 then normalise_gain_cols rest gainmatrix
      else normalise_gain_cols rest (divide_col gainmatrix col (colsum gainmatrix col)))"

text \<open>
  The second loop divides every column by its absolute sum. On a zero sum numpy
  stores \<open>nan\<close> in the column and goes on, and \<^verbatim>\<open>np.linalg.eig\<close> then refuses the
  matrix; the model has no such entries and stops with \<open>NonFinite\<close>.
\<close>

fun normalise_weight_cols :: "nat list \<Rightarrow> real matrix \<Rightarrow> error + real matrix" where
  "normalise_weight_cols [] weightmatrix = Inr weightmatrix"
| "normalise_weight_cols (col # rest) weightmatrix =
     (if ncols weightmatrix \<le> col then Inl IndexError
      else if colsum weightmatrix col = 0 then Inl NonFinite
      else normalise_weight_cols rest (divide_col weightmatrix col (colsum weightmatrix col)))"

text \<open>
  \<^verbatim>\<open>np.ones((n, n), dtype=float)/n\<close>, the product of a scalar and a matrix, and
  the sum of two matrices. numpy adds matrices of different shapes when each pair of
  dimensions is equal or has a 1 in it, repeating the matrix along that dimension,
  and raises \<open>ValueError\<close> otherwise.
\<close>

definition resetmatrix :: "nat \<Rightarrow> real matrix" where
  "resetmatrix n = \<lparr>nrows = n, ncols = n, entry = (\<lambda>row col. 1 / real n)\<rparr>"

definition smult :: "real \<Rightarrow> real matrix \<Rightarrow> real matrix" where
  "smult c M = M\<lparr>entry := (\<lambda>row col. c * entry M row col)\<rparr>"

definition broadcast_dim :: "nat \<Rightarrow> nat \<Rightarrow> nat option" where
  "broadcast_dim a b =
     (if a = b then Some a else if a = 1 then Some b else if b = 1 then Some a else None)"

definition madd :: "real matrix \<Rightarrow> real matrix \<Rightarrow> error + real matrix" where
  "madd A B =
     (case (broadcast_dim (nrows A) (nrows B), broadcast_dim (ncols A) (ncols B)) of
        (Some r, Some c) \<Rightarrow>
          Inr \<lparr>nrows = r, ncols = c,
               entry = (\<lambda>row col.
                 entry A (if nrows A = 1 then 0 else row) (if ncols A = 1 then 0 else col) +
                 entry B (if nrows B = 1 then 0 else row) (if ncols B = 1 then 0 else col))\<rparr>
      | _ \<Rightarrow> Inl ValueError)"

text \<open>
  The matrices of \<^verbatim>\<open>calc_simple_rank\<close> up to the eigen-decomposition: the
  transposed gain matrix with its columns normalised, and the blended weight matrix
  with its columns normalised.
\<close>

definition normalised_gain :: "real matrix \<Rightarrow> error + real matrix" where
  "normalised_gain gainmatrix =
     normalise_gain_cols [0..<nrows (T gainmatrix)] (T gainmatrix)"

definition blended_weight :: "real matrix \<Rightarrow> nat \<Rightarrow> real \<Rightarrow> error + real matrix" where
  "blended_weight gainmatrix n m =
     (case madd (smult m gainmatrix) (smult (1 - m) (resetmatrix n)) of
        Inl e \<Rightarrow> Inl e
      | Inr weightmatrix \<Rightarrow> normalise_weight_cols [0..<n] weightmatrix)"

text \<open>\<^verbatim>\<open>np.linalg.eig\<close> raises \<open>LinAlgError\<close> on a matrix that is not square.\<close>

definition linalg_eig :: "libraries \<Rightarrow> real matrix \<Rightarrow> error + (complex list \<times> complex matrix)" where
  "linalg_eig lib M =
     (if nrows M \<noteq> ncols M then Inl LinAlgError
      else case eig lib M of None \<Rightarrow> Inl LinAlgError | Some r \<Rightarrow> Inr r)"

text \<open>
  \<^verbatim>\<open>np.argmax\<close> returns the index of the first greatest entry; numpy orders complex
  numbers by their real part and, among equal real parts, by their imaginary part.
  It raises \<open>ValueError\<close> on an empty array.
\<close>

definition complex_gt :: "complex \<Rightarrow> complex \<Rightarrow> bool" where
  "complex_gt a b \<longleftrightarrow> Re a > Re b \<or> (Re a = Re b \<and> Im a > Im b)"

fun argmax_loop :: "nat \<Rightarrow> complex \<Rightarrow> nat \<Rightarrow> complex list \<Rightarrow> nat" where
  "argmax_loop max_ind mp i [] = max_ind"
| "argmax_loop max_ind mp i (x # xs) =
     (if complex_gt x mp then argmax_loop i x (Suc i) xs
      else argmax_loop max_ind mp (Suc i) xs)"

definition argmax :: "complex list \<Rightarrow> error + nat" where
  "argmax xs = (case xs of [] \<Rightarrow> Inl ValueError | x # rest \<Rightarrow> Inr (argmax_loop 0 x 1 rest))"

text \<open>
  The column of the eigenvector matrix at the chosen index, its absolute values, and
  the division by their sum. \<^verbatim>\<open>sum\<close> of an empty array is the integer 0 and the
  division raises; a zero sum of a non-empty array gives \<open>inf\<close> and a ranking of
  \<open>nan\<close>, which the model reports as \<open>NonFinite\<close>.
\<close>

definition rankarray_norm :: "complex matrix \<Rightarrow> nat \<Rightarrow> error + real list" where
  "rankarray_norm eigvec maxeigindex =
     (if ncols eigvec \<le> maxeigindex then Inl IndexError
      else let rankarray = map (\<lambda>row. cmod (entry eigvec row maxeigindex)) [0..<nrows eigvec]
           in if rankarray = [] then Inl ZeroDivisionError
              else if sum_list rankarray = 0 then Inl NonFinite
              else Inr (map (\<lambda>x. (1 / sum_list rankarray) * x) rankarray))"

text \<open>\<^verbatim>\<open>dict(zip(keys, values))\<close>: the pairs are stored in order, up to the shorter list.\<close>

definition dict_zip :: "string list \<Rightarrow> 'v list \<Rightarrow> 'v dict" where
  "dict_zip ks vs = fold (\<lambda>(k, v) d. dict_set d k v) (zip ks vs) []"

text \<open>
  The loops that build the two graphs of the centrality cross-checks, and
  \<^verbatim>\<open>norm_dict\<close>. The results of the cross-checks are not returned, but their
  exceptions end the call.
\<close>

fun centrality_rows :: "real matrix \<Rightarrow> real matrix \<Rightarrow> nat \<Rightarrow> string \<Rightarrow> (nat \<times> string) list
    \<Rightarrow> digraph \<times> digraph \<Rightarrow> error + (digraph \<times> digraph)" where
  "centrality_rows weightmatrix gainmatrix col colvar [] graphs = Inr graphs"
| "centrality_rows weightmatrix gainmatrix col colvar ((row, rowvar) # rest) (weightgraph, gaingraph) =
     (case mget weightmatrix row col of
        Inl e \<Rightarrow> Inl e
      | Inr w \<Rightarrow>
          (case mget gainmatrix row col of
             Inl e \<Rightarrow> Inl e
           | Inr g \<Rightarrow>
               centrality_rows weightmatrix gainmatrix col colvar rest
                 (add_edge weightgraph rowvar colvar w,
                  if g \<noteq> 0 then add_edge gaingraph rowvar colvar g else gaingraph)))"

fun centrality_cols :: "string list \<Rightarrow> real matrix \<Rightarrow> real matrix \<Rightarrow> (nat \<times> string) list
    \<Rightarrow> digraph \<times> digraph \<Rightarrow> error + (digraph \<times> digraph)" where
  "centrality_cols variables weightmatrix gainmatrix [] graphs = Inr graphs"
| "centrality_cols variables weightmatrix gainmatrix ((col, colvar) # rest) graphs =
     (case centrality_rows weightmatrix gainmatrix col colvar (List.enumerate 0 variables) graphs of
        Inl e \<Rightarrow> Inl e
      | Inr graphs' \<Rightarrow> centrality_cols variables weightmatrix gainmatrix rest graphs')"

definition norm_dict :: "real dict \<Rightarrow> error + real dict" where
  "norm_dict dictionary =
     (if dictionary = [] then Inr []
      else if sum_list (dict_values dictionary) = 0 then Inl ZeroDivisionError
      else Inr (map (\<lambda>(key, v). (key, v / sum_list (dict_values dictionary))) dictionary))"

definition centrality_checks :: "libraries \<Rightarrow> string list \<Rightarrow> real matrix \<Rightarrow> real matrix
    \<Rightarrow> error + (real dict \<times> real dict)" where
  "centrality_checks lib variables weightmatrix gainmatrix =
     (case centrality_cols variables weightmatrix gainmatrix (List.enumerate 0 variables)
             (DiGraph, DiGraph) of
        Inl e \<Rightarrow> Inl e
      | Inr (weightgraph, gaingraph) \<Rightarrow>
          (case eigenvector_centrality lib (reverse weightgraph) of
             None \<Rightarrow> Inl NetworkXError
           | Some eig_rankingdict \<Rightarrow>
               (case norm_dict eig_rankingdict of
                  Inl e \<Rightarrow> Inl e
                | Inr eig_rankingdict_norm \<Rightarrow>
                    (case katz_centrality lib (reverse gaingraph) (99 / 100) 1 20000 of
                       None \<Rightarrow> Inl NetworkXError
                     | Some katz_rankingdict \<Rightarrow>
                         (case norm_dict katz_rankingdict of
                            Inl e \<Rightarrow> Inl e
                          | Inr katz_rankingdict_norm \<Rightarrow>
                              Inr (eig_rankingdict_norm, katz_rankingdict_norm))))))"

definition calc_simple_rank :: "libraries \<Rightarrow> real matrix \<Rightarrow> string list \<Rightarrow> real
    \<Rightarrow> error + (real dict \<times> (string \<times> real) list)" where
  "calc_simple_rank lib gainmatrix variables m =
     (case normalised_gain gainmatrix of
        Inl e \<Rightarrow> Inl e
      | Inr gainmatrix' \<Rightarrow>
     (case blended_weight gainmatrix' (nrows (T gainmatrix)) m of
        Inl e \<Rightarrow> Inl e
      | Inr weightmatrix \<Rightarrow>
     (case linalg_eig lib weightmatrix of
        Inl e \<Rightarrow> Inl e
      | Inr (eigval, eigvec) \<Rightarrow>
     (case linalg_eig lib gainmatrix' of
        Inl e \<Rightarrow> Inl e
      | Inr eig_gain \<Rightarrow>
     (case argmax eigval of
        Inl e \<Rightarrow> Inl e
      | Inr maxeigindex \<Rightarrow>
     (case rankarray_norm eigvec maxeigindex of
        Inl e \<Rightarrow> Inl e
      | Inr scores \<Rightarrow>
     (case centrality_checks lib variables weightmatrix gainmatrix' of
        Inl e \<Rightarrow> Inl e
      | Inr checks \<Rightarrow>
          Inr (dict_zip variables scores, sorted_by_score (dict_zip variables scores)))))))))"

subsection \<open>Example inputs\<close>

text \<open>
  A gain matrix of dimension 2 whose transpose, with its columns normalised, is
  \<open>[[1/2, 0], [1/2, 1]]\<close>; with damping factor 1 this is also the weight matrix. Its
  eigenvalues are \<open>1/2\<close> and \<open>1\<close>, with unit eigenvectors \<open>(1, -1)/sqrt 2\<close> and
  \<open>(0, 1)\<close>; \<open>example_lib\<close> is a library whose \<open>eig\<close> returns this decomposition
  and whose two centrality functions return the dictionary given.
\<close>

definition example_gain :: "real matrix" where
  "example_gain = \<lparr>nrows = 2, ncols = 2,
     entry = (\<lambda>row col. if row = 0 then 1 else if col = 0 then 0 else 2)\<rparr>"

definition example_eigvec :: "complex matrix" where
  "example_eigvec = \<lparr>nrows = 2, ncols = 2,
     entry = (\<lambda>row col.
        if col = 0 then (if row = 0 then complex_of_real (sqrt 2 / 2) else - complex_of_real (sqrt 2 / 2))
        else (if row = 0 then 0 else 1))\<rparr>"

definition example_lib :: "real dict \<Rightarrow> libraries" where
  "example_lib centrality =
     \<lparr>eig = (\<lambda>M. Some ([1 / 2, 1], example_eigvec)),
      eigenvector_centrality = (\<lambda>g. Some centrality),
      katz_centrality = (\<lambda>g alpha beta max_iter. Some centrality)\<rparr>"

text \<open>
  The same library with an \<open>eig\<close> that, as \<open>np.linalg.eig\<close> does, accepts square matrices
  only (here those of dimension 2) and returns an eigenvector matrix of the dimension
  of its argument.
\<close>

definition example_square_lib :: "real dict \<Rightarrow> libraries" where
  "example_square_lib centrality =
     \<lparr>eig = (\<lambda>M. if nrows M = 2 \<and> ncols M = 2
          then Some ([1 / 2, 1], example_eigvec) else None),
      eigenvector_centrality = (\<lambda>g. Some centrality),
      katz_centrality = (\<lambda>g alpha beta max_iter. Some centrality)\<rparr>"

section \<open>Properties\<close>

subsection \<open>Dictionaries\<close>

lemma map_of_dict_set:
  "map_of (dict_set d k v) k' = (if k' = k then Some v else map_of d k')"
  by (simp add: dict_set_def update_conv')

lemma dict_get_Inr: "dict_get d k = Inr v \<longleftrightarrow> map_of d k = Some v"
  by (simp add: dict_get_def split: option.splits)

subsection \<open>Successive differences of importance\<close>

lemma diff_loop_total:
  "\<forall>rd\<in>set rds. v \<in> fst ` set rd \<Longrightarrow> \<exists>ds. diff_loop v rds p = Inr ds"
proof (induction rds arbitrary: p)
  case Nil show ?case by simp
next
  case (Cons rd rds)
  from Cons.prems have "v \<in> fst ` set rd" by simp
  then obtain x where x: "map_of rd v = Some x"
    by (metis domD dom_map_of_conv_image_fst)
  from Cons.IH[of x] Cons.prems obtain ds where "diff_loop v rds x = Inr ds" by auto
  with x show ?case by (simp add: dict_get_def)
qed

lemma diff_loop_length: "diff_loop v rds p = Inr ds \<Longrightarrow> length ds = length rds"
  by (induction rds arbitrary: p ds) (auto split: sum.splits)

lemma diff_loop_nth:
  "diff_loop v rds p = Inr ds \<Longrightarrow> k < length rds \<Longrightarrow>
   \<exists>a b. dict_get ((q # rds) ! Suc k) v = Inr a \<and> (if k = 0 then b = p else dict_get ((q # rds) ! k) v = Inr b) \<and> ds ! k = a - b"
proof (induction rds arbitrary: p ds k q)
  case Nil then show ?case by simp
next
  case (Cons rd rds)
  from Cons.prems(1) obtain x ds' where x: "dict_get rd v = Inr x" and ds': "diff_loop v rds x = Inr ds'"
    and ds: "ds = (x - p) # ds'" by (auto split: sum.splits)
  show ?case
  proof (cases k)
    case 0 with x ds show ?thesis by simp
  next
    case (Suc j)
    with Cons.prems(2) have j: "j < length rds" by simp
    from Cons.IH[OF ds' j, of rd] obtain a b where
      "dict_get ((rd # rds) ! Suc j) v = Inr a" "(if j = 0 then b = x else dict_get ((rd # rds) ! j) v = Inr b)" "ds' ! j = a - b"
      by blast
    with Suc ds x show ?thesis by (cases j) auto
  qed
qed

lemma diff_loop_sum:
  "diff_loop v rds p = Inr ds \<Longrightarrow> k < length rds \<Longrightarrow>
   \<exists>x. dict_get (rds ! k) v = Inr x \<and> p + sum_list (take (Suc k) ds) = x"
proof (induction rds arbitrary: p ds k)
  case Nil then show ?case by simp
next
  case (Cons rd rds)
  from Cons.prems(1) obtain x ds' where x: "dict_get rd v = Inr x" and ds': "diff_loop v rds x = Inr ds'"
    and ds: "ds = (x - p) # ds'" by (auto split: sum.splits)
  show ?case
  proof (cases k)
    case 0 with x ds show ?thesis by simp
  next
    case (Suc j)
    with Cons.prems(2) have j: "j < length rds" by simp
    from Cons.IH[OF ds' j] obtain y where "dict_get (rds ! j) v = Inr y" "x + sum_list (take (Suc j) ds') = y" by blast
    with Suc ds show ?thesis by simp
  qed
qed

lemma transient_loop_result:
  "(\<forall>v\<in>set vs. v \<in> fst ` set first \<and> (\<forall>rd\<in>set others. v \<in> fst ` set rd)) \<Longrightarrow>
   \<exists>td' bd'. transient_loop (first # others) vs (td, bd) = Inr (td', bd') \<and>
     (\<forall>v. if v \<in> set vs
          then (\<exists>base ds. dict_get first v = Inr base \<and> diff_loop v others base = Inr ds \<and>
                 map_of td' v = Some ds \<and> map_of bd' v = Some base)
          else map_of td' v = map_of td v \<and> map_of bd' v = map_of bd v)"
proof (induction vs arbitrary: td bd)
  case Nil show ?case by simp
next
  case (Cons u vs)
  from Cons.prems have "u \<in> fst ` set first" by simp
  then obtain base where base: "dict_get first u = Inr base"
    by (metis dict_get_Inr domD dom_map_of_conv_image_fst)
  from Cons.prems diff_loop_total[of others u base] obtain ds where ds: "diff_loop u others base = Inr ds"
    by auto
  let ?td = "dict_set td u ds" and ?bd = "dict_set bd u base"
  from Cons.IH[of ?td ?bd] Cons.prems obtain td' bd' where
    r: "transient_loop (first # others) vs (?td, ?bd) = Inr (td', bd')" and
    p: "\<And>v. if v \<in> set vs
          then (\<exists>base ds. dict_get first v = Inr base \<and> diff_loop v others base = Inr ds \<and>
                 map_of td' v = Some ds \<and> map_of bd' v = Some base)
          else map_of td' v = map_of ?td v \<and> map_of bd' v = map_of ?bd v"
    by auto
  have "transient_loop (first # others) (u # vs) (td, bd) = Inr (td', bd')"
    using base ds r by simp
  moreover have "if v \<in> set (u # vs)
          then (\<exists>base ds. dict_get first v = Inr base \<and> diff_loop v others base = Inr ds \<and>
                 map_of td' v = Some ds \<and> map_of bd' v = Some base)
          else map_of td' v = map_of td v \<and> map_of bd' v = map_of bd v" for v
    using p[of v] base ds by (auto simp: map_of_dict_set split: if_splits)
  ultimately show ?case by blast
qed


text \<open>
  Claim C8. For a non-empty sequence of boxes in which every dictionary holds every
  variable of the list, \<open>calc_transient_importancediffs\<close> returns, and for each
  variable of the list: the base value is the score of box 0; the difference vector
  has one entry per box transition; its \<open>k\<close>-th entry is the score of box \<open>k + 1\<close>
  minus the score of box \<open>k\<close>; and the base value plus the sum of the first \<open>k\<close>
  differences is the score of box \<open>k\<close>.
\<close>

theorem transient_importancediffs_roundtrip:
  assumes "rankingdicts \<noteq> []"
    and "\<forall>rd\<in>set rankingdicts. \<forall>v\<in>set variablelist. v \<in> fst ` set rd"
  shows "\<exists>transientdict basevaldict.
    calc_transient_importancediffs rankingdicts variablelist = Inr (transientdict, basevaldict) \<and>
    (\<forall>v\<in>set variablelist. \<exists>diffvect base.
       dict_get transientdict v = Inr diffvect \<and>
       dict_get basevaldict v = Inr base \<and>
       dict_get (rankingdicts ! 0) v = Inr base \<and>
       length diffvect = length rankingdicts - 1 \<and>
       (\<forall>k<length diffvect. \<exists>a b.
          dict_get (rankingdicts ! Suc k) v = Inr a \<and>
          dict_get (rankingdicts ! k) v = Inr b \<and>
          diffvect ! k = a - b) \<and>
       (\<forall>k<length rankingdicts. \<exists>x.
          dict_get (rankingdicts ! k) v = Inr x \<and>
          base + sum_list (take k diffvect) = x))"
proof -
  from assms(1) obtain first others where rds: "rankingdicts = first # others"
    by (cases rankingdicts) auto
  have pre: "\<forall>v\<in>set variablelist. v \<in> fst ` set first \<and> (\<forall>rd\<in>set others. v \<in> fst ` set rd)"
    using assms(2) rds by auto
  from transient_loop_result[OF pre, of "[]" "[]"] obtain td bd where
    run: "transient_loop (first # others) variablelist ([], []) = Inr (td, bd)" and
    res: "\<And>v. v \<in> set variablelist \<Longrightarrow> \<exists>base ds. dict_get first v = Inr base \<and>
            diff_loop v others base = Inr ds \<and> map_of td v = Some ds \<and> map_of bd v = Some base"
    by (metis (no_types, lifting))
  have "\<exists>diffvect base.
       dict_get td v = Inr diffvect \<and>
       dict_get bd v = Inr base \<and>
       dict_get (rankingdicts ! 0) v = Inr base \<and>
       length diffvect = length rankingdicts - 1 \<and>
       (\<forall>k<length diffvect. \<exists>a b.
          dict_get (rankingdicts ! Suc k) v = Inr a \<and>
          dict_get (rankingdicts ! k) v = Inr b \<and>
          diffvect ! k = a - b) \<and>
       (\<forall>k<length rankingdicts. \<exists>x.
          dict_get (rankingdicts ! k) v = Inr x \<and>
          base + sum_list (take k diffvect) = x)" if v: "v \<in> set variablelist" for v
  proof -
    from res[OF v] obtain base ds where base: "dict_get first v = Inr base"
      and ds: "diff_loop v others base = Inr ds"
      and td: "map_of td v = Some ds" and bd: "map_of bd v = Some base" by blast
    have len: "length ds = length others" using ds by (rule diff_loop_length)
    have step: "\<exists>a b. dict_get (rankingdicts ! Suc k) v = Inr a \<and>
          dict_get (rankingdicts ! k) v = Inr b \<and> ds ! k = a - b" if k: "k < length ds" for k
    proof -
      from k len have k': "k < length others" by simp
      from diff_loop_nth[OF ds k', of first] obtain a b where
        a: "dict_get ((first # others) ! Suc k) v = Inr a" and
        b: "if k = 0 then b = base else dict_get ((first # others) ! k) v = Inr b" and
        d: "ds ! k = a - b" by blast
      from b base have "dict_get ((first # others) ! k) v = Inr b" by (cases k) auto
      with a d rds show ?thesis by blast
    qed
    have cum: "\<exists>x. dict_get (rankingdicts ! k) v = Inr x \<and> base + sum_list (take k ds) = x"
      if k: "k < length rankingdicts" for k
    proof (cases k)
      case 0 with base rds show ?thesis by simp
    next
      case (Suc j)
      with k rds have j: "j < length others" by simp
      from diff_loop_sum[OF ds j] Suc rds show ?thesis by simp
    qed
    from td bd base len rds step cum show ?thesis
      by (simp add: dict_get_Inr) 
  qed
  with run rds show ?thesis
    by (simp add: calc_transient_importancediffs_def)
qed

theorem transient_importancediffs_roundtrip_witness:
  "[[(''a'', 1/4), (''b'', 3/4)], [(''a'', 1/2), (''b'', 1/2)], [(''a'', 1/3), (''b'', 2/3)]] \<noteq> ([] :: real dict list) \<and>
   calc_transient_importancediffs
     [[(''a'', 1/4), (''b'', 3/4)], [(''a'', 1/2), (''b'', 1/2)], [(''a'', 1/3), (''b'', 2/3)]] [''a'', ''b'']
   = Inr ([(''a'', [1/4, - (1/6)]), (''b'', [- (1/4), 1/6])], [(''a'', 1/4), (''b'', 3/4)])"
  using transient_importancediffs_roundtrip
    [of "[[(''a'', 1/4), (''b'', 3/4)], [(''a'', 1/2), (''b'', 1/2)], [(''a'', 1/3), (''b'', 2/3)]]" "[''a'', ''b'']"]
  by (simp add: calc_transient_importancediffs_def dict_get_def dict_set_def)

subsection \<open>Blending two rankings\<close>

lemma update_absent: "k \<notin> fst ` set al \<Longrightarrow> AList.update k v al = al @ [(k, v)]"
  by (induction al) auto

lemma blend_loop_distinct:
  "distinct vs \<Longrightarrow> set vs \<inter> fst ` set d = {} \<Longrightarrow>
   blend_loop fr br alpha vs d = Inr d' \<Longrightarrow>
   (\<forall>v\<in>set vs. \<exists>f b. dict_get fr v = Inr f \<and> dict_get br v = Inr b) \<and>
   d' = d @ map (\<lambda>v. (v, \<bar>(1 - alpha) * the (map_of fr v) + alpha * the (map_of br v)\<bar>)) vs"
proof (induction vs arbitrary: d)
  case Nil then show ?case by simp
next
  case (Cons u vs)
  from Cons.prems(3) obtain f b where f: "dict_get fr u = Inr f" and b: "dict_get br u = Inr b"
    and run: "blend_loop fr br alpha vs (dict_set d u (\<bar>(1 - alpha) * f + alpha * b\<bar>)) = Inr d'"
    by (auto split: sum.splits)
  from Cons.prems(2) have "u \<notin> fst ` set d" by auto
  then have upd: "dict_set d u (\<bar>(1 - alpha) * f + alpha * b\<bar>) = d @ [(u, \<bar>(1 - alpha) * f + alpha * b\<bar>)]"
    by (simp add: dict_set_def update_absent)
  have disj: "set vs \<inter> fst ` set (d @ [(u, \<bar>(1 - alpha) * f + alpha * b\<bar>)]) = {}"
    using Cons.prems(1,2) by auto
  from Cons.prems(1) have dvs: "distinct vs" by simp
  from Cons.IH[OF dvs disj] run upd
  have "(\<forall>v\<in>set vs. \<exists>f b. dict_get fr v = Inr f \<and> dict_get br v = Inr b) \<and>
    d' = (d @ [(u, \<bar>(1 - alpha) * f + alpha * b\<bar>)]) @
       map (\<lambda>v. (v, \<bar>(1 - alpha) * the (map_of fr v) + alpha * the (map_of br v)\<bar>)) vs"
    by simp
  with f b show ?case by (auto simp: dict_get_Inr)
qed

lemma update_distinct_map:
  "distinct (map fst d) \<Longrightarrow> map_of d k = Some x \<Longrightarrow>
   AList.update k (h x) d = map (\<lambda>(k', y). if k' = k then (k', h y) else (k', y)) d"
proof (induction d)
  case Nil then show ?case by simp
next
  case (Cons p d)
  obtain k' y where p: "p = (k', y)" by (cases p)
  show ?case
  proof (cases "k' = k")
    case True
    with Cons.prems p have x: "y = x" and "k \<notin> fst ` set d" by auto
    then have "map (\<lambda>(k', y). if k' = k then (k', h y) else (k', y)) d = d"
      by (induction d) auto
    with True p x show ?thesis by simp
  next
    case False
    with Cons p show ?thesis by simp
  qed
qed


lemma blend_loop_total:
  "\<forall>v\<in>set vs. v \<in> fst ` set fr \<and> v \<in> fst ` set br \<Longrightarrow>
   \<exists>d'. blend_loop fr br alpha vs d = Inr d'"
proof (induction vs arbitrary: d)
  case Nil
  then show ?case by simp
next
  case (Cons u vs)
  from Cons.prems obtain f b where f: "map_of fr u = Some f" and b: "map_of br u = Some b"
    by (metis domD dom_map_of_conv_image_fst list.set_intros(1))
  from Cons.IH[of "dict_set d u (\<bar>(1 - alpha) * f + alpha * b\<bar>)"] Cons.prems
  obtain d' where "blend_loop fr br alpha vs (dict_set d u (\<bar>(1 - alpha) * f + alpha * b\<bar>)) = Inr d'"
    by auto
  with f b show ?case by (simp add: dict_get_def)
qed

lemma divide_loop_distinct:
  "distinct vs \<Longrightarrow> distinct (map fst d) \<Longrightarrow> set vs \<subseteq> fst ` set d \<Longrightarrow>
   divide_loop tot vs d =
     Inr (map (\<lambda>(k, y). if k \<in> set vs then (k, np_divide y tot) else (k, y)) d)"
proof (induction vs arbitrary: d)
  case Nil then show ?case by simp
next
  case (Cons u vs)
  from Cons.prems(3) have "u \<in> fst ` set d" by simp
  then obtain x where x: "map_of d u = Some x"
    by (metis domD dom_map_of_conv_image_fst)
  let ?d1 = "map (\<lambda>(k', y). if k' = u then (k', np_divide y tot) else (k', y)) d"
  have upd: "dict_set d u (np_divide x tot) = ?d1"
    using update_distinct_map[OF Cons.prems(2) x, of "\<lambda>y. np_divide y tot"] by (simp add: dict_set_def)
  have keys: "map fst ?d1 = map fst d" by (auto simp: case_prod_beta)
  have "divide_loop tot vs ?d1 =
      Inr (map (\<lambda>(k, y). if k \<in> set vs then (k, np_divide y tot) else (k, y)) ?d1)"
    using Cons.IH[of ?d1] Cons.prems keys
    by (metis distinct.simps(2) list.set_map set_subset_Cons subset_trans)
  moreover have "map (\<lambda>(k, y). if k \<in> set vs then (k, np_divide y tot) else (k, y)) ?d1
     = map (\<lambda>(k, y). if k \<in> set (u # vs) then (k, np_divide y tot) else (k, y)) d"
    using Cons.prems(1) by (auto simp: case_prod_beta)
  ultimately show ?case using x upd by (simp add: dict_get_def)
qed

text \<open>What \<open>calc_blended_rank\<close> returns on a duplicate-free list of keys of both dictionaries.\<close>

lemma calc_blended_rank_result:
  fixes alpha :: real
  assumes dist: "distinct vs"
    and keys: "\<forall>v\<in>set vs. v \<in> fst ` set fr \<and> v \<in> fst ` set br"
  defines "g \<equiv> \<lambda>v. \<bar>(1 - alpha) * the (map_of fr v) + alpha * the (map_of br v)\<bar>"
  shows "\<exists>l. calc_blended_rank fr br vs alpha =
      Inr (map (\<lambda>v. (v, np_divide (Fin (g v)) (sum_list (map g vs)))) vs, l)"
proof -
  from blend_loop_total[OF keys] obtain d0 where b: "blend_loop fr br alpha vs [] = Inr d0"
    by blast
  from blend_loop_distinct[OF dist _ b] have d0: "d0 = map (\<lambda>v. (v, g v)) vs"
    by (auto simp: g_def)
  have tot: "sum_list (dict_values d0) = sum_list (map g vs)"
    by (simp add: d0 dict_values_def comp_def)
  let ?d1 = "map (\<lambda>(variable, x). (variable, Fin x)) d0"
  have d1: "?d1 = map (\<lambda>v. (v, Fin (g v))) vs" by (simp add: d0 comp_def)
  have "divide_loop (sum_list (map g vs)) vs ?d1 =
      Inr (map (\<lambda>(k, y). if k \<in> set vs then (k, np_divide y (sum_list (map g vs))) else (k, y)) ?d1)"
  proof (rule divide_loop_distinct)
    show "distinct vs" by (rule dist)
    show "distinct (map fst ?d1)" using dist by (simp add: d1 comp_def)
    show "set vs \<subseteq> fst ` set ?d1" unfolding d1 by force
  qed
  also have "map (\<lambda>(k, y). if k \<in> set vs then (k, np_divide y (sum_list (map g vs))) else (k, y)) ?d1
      = map (\<lambda>v. (v, np_divide (Fin (g v)) (sum_list (map g vs)))) vs"
    unfolding d1 by (simp add: comp_def)
  finally show ?thesis using b tot by (simp add: calc_blended_rank_def)
qed

lemma sum_list_divide: "sum_list (map (\<lambda>v. g v / (c::real)) vs) = sum_list (map g vs) / c"
  by (induction vs) (auto simp: add_divide_distrib)

lemma blended_extreme:
  assumes dist: "distinct vs"
    and keys: "\<forall>v\<in>set vs. v \<in> fst ` set fr \<and> v \<in> fst ` set br"
    and g: "\<And>v. v \<in> set vs \<Longrightarrow> \<bar>(1 - alpha) * the (map_of fr v) + alpha * the (map_of br v)\<bar> = the (map_of r v)"
    and nz: "sum_list (map (\<lambda>u. the (map_of r u)) vs) \<noteq> 0"
  shows "(\<exists>l. calc_blended_rank fr br vs alpha =
       Inr (map (\<lambda>v. (v, Fin (the (map_of r v) / sum_list (map (\<lambda>u. the (map_of r u)) vs)))) vs, l)) \<and>
     sum_list (map (\<lambda>v. the (map_of r v) / sum_list (map (\<lambda>u. the (map_of r u)) vs)) vs) = 1"
proof -
  let ?g = "\<lambda>v. \<bar>(1 - alpha) * the (map_of fr v) + alpha * the (map_of br v)\<bar>"
  let ?t = "sum_list (map (\<lambda>u. the (map_of r u)) vs)"
  from calc_blended_rank_result[OF dist keys, where alpha = alpha] obtain l where
    run: "calc_blended_rank fr br vs alpha =
      Inr (map (\<lambda>v. (v, np_divide (Fin (?g v)) (sum_list (map ?g vs)))) vs, l)" by blast
  have eq: "map ?g vs = map (\<lambda>u. the (map_of r u)) vs" using g by simp
  have "map (\<lambda>v. (v, np_divide (Fin (?g v)) (sum_list (map ?g vs)))) vs
      = map (\<lambda>v. (v, Fin (the (map_of r v) / ?t))) vs"
    unfolding eq using g nz by (simp add: np_divide_def)
  with run have a: "calc_blended_rank fr br vs alpha = Inr (map (\<lambda>v. (v, Fin (the (map_of r v) / ?t))) vs, l)"
    by simp
  have "sum_list (map (\<lambda>v. the (map_of r v) / ?t) vs) = ?t / ?t" by (rule sum_list_divide)
  with nz have "sum_list (map (\<lambda>v. the (map_of r v) / ?t) vs) = 1" by simp
  with a show ?thesis by blast
qed

text \<open>
  Claim C9, as the code has it. On a duplicate-free variable list whose variables are
  keys of both dictionaries: with \<open>alpha = 0\<close> and forward scores of the listed
  variables that are non-negative and not all zero, \<open>calc_blended_rank\<close> returns
  the dictionary that holds the forward score of each listed variable divided by
  their total, and these scores sum to 1; with \<open>alpha = 1\<close> the same holds of the
  backward scores.
\<close>

theorem calc_blended_rank_alpha_extremes:
  assumes "distinct variablelist"
    and "\<forall>v\<in>set variablelist. v \<in> fst ` set forwardrank \<and> v \<in> fst ` set backwardrank"
  shows "((\<forall>v\<in>set variablelist. 0 \<le> the (map_of forwardrank v)) \<and>
          sum_list (map (\<lambda>u. the (map_of forwardrank u)) variablelist) \<noteq> 0 \<longrightarrow>
            (\<exists>rankinglist. calc_blended_rank forwardrank backwardrank variablelist 0 =
               Inr (map (\<lambda>v. (v, Fin (the (map_of forwardrank v) /
                      sum_list (map (\<lambda>u. the (map_of forwardrank u)) variablelist)))) variablelist,
                    rankinglist)) \<and>
            sum_list (map (\<lambda>v. the (map_of forwardrank v) /
                      sum_list (map (\<lambda>u. the (map_of forwardrank u)) variablelist)) variablelist) = 1) \<and>
         ((\<forall>v\<in>set variablelist. 0 \<le> the (map_of backwardrank v)) \<and>
          sum_list (map (\<lambda>u. the (map_of backwardrank u)) variablelist) \<noteq> 0 \<longrightarrow>
            (\<exists>rankinglist. calc_blended_rank forwardrank backwardrank variablelist 1 =
               Inr (map (\<lambda>v. (v, Fin (the (map_of backwardrank v) /
                      sum_list (map (\<lambda>u. the (map_of backwardrank u)) variablelist)))) variablelist,
                    rankinglist)) \<and>
            sum_list (map (\<lambda>v. the (map_of backwardrank v) /
                      sum_list (map (\<lambda>u. the (map_of backwardrank u)) variablelist)) variablelist) = 1)"
proof (rule conjI)
  show "(\<forall>v\<in>set variablelist. 0 \<le> the (map_of forwardrank v)) \<and>
          sum_list (map (\<lambda>u. the (map_of forwardrank u)) variablelist) \<noteq> 0 \<longrightarrow>
            (\<exists>rankinglist. calc_blended_rank forwardrank backwardrank variablelist 0 =
               Inr (map (\<lambda>v. (v, Fin (the (map_of forwardrank v) /
                      sum_list (map (\<lambda>u. the (map_of forwardrank u)) variablelist)))) variablelist,
                    rankinglist)) \<and>
            sum_list (map (\<lambda>v. the (map_of forwardrank v) /
                      sum_list (map (\<lambda>u. the (map_of forwardrank u)) variablelist)) variablelist) = 1"
  proof (rule impI, elim conjE)
    assume nn: "\<forall>v\<in>set variablelist. 0 \<le> the (map_of forwardrank v)"
      and nz: "sum_list (map (\<lambda>u. the (map_of forwardrank u)) variablelist) \<noteq> 0"
    show "(\<exists>rankinglist. calc_blended_rank forwardrank backwardrank variablelist 0 =
               Inr (map (\<lambda>v. (v, Fin (the (map_of forwardrank v) /
                      sum_list (map (\<lambda>u. the (map_of forwardrank u)) variablelist)))) variablelist,
                    rankinglist)) \<and>
            sum_list (map (\<lambda>v. the (map_of forwardrank v) /
                      sum_list (map (\<lambda>u. the (map_of forwardrank u)) variablelist)) variablelist) = 1"
      by (rule blended_extreme[OF assms _ nz]) (use nn in simp)
  qed
  show "(\<forall>v\<in>set variablelist. 0 \<le> the (map_of backwardrank v)) \<and>
          sum_list (map (\<lambda>u. the (map_of backwardrank u)) variablelist) \<noteq> 0 \<longrightarrow>
            (\<exists>rankinglist. calc_blended_rank forwardrank backwardrank variablelist 1 =
               Inr (map (\<lambda>v. (v, Fin (the (map_of backwardrank v) /
                      sum_list (map (\<lambda>u. the (map_of backwardrank u)) variablelist)))) variablelist,
                    rankinglist)) \<and>
            sum_list (map (\<lambda>v. the (map_of backwardrank v) /
                      sum_list (map (\<lambda>u. the (map_of backwardrank u)) variablelist)) variablelist) = 1"
  proof (rule impI, elim conjE)
    assume nn: "\<forall>v\<in>set variablelist. 0 \<le> the (map_of backwardrank v)"
      and nz: "sum_list (map (\<lambda>u. the (map_of backwardrank u)) variablelist) \<noteq> 0"
    show "(\<exists>rankinglist. calc_blended_rank forwardrank backwardrank variablelist 1 =
               Inr (map (\<lambda>v. (v, Fin (the (map_of backwardrank v) /
                      sum_list (map (\<lambda>u. the (map_of backwardrank u)) variablelist)))) variablelist,
                    rankinglist)) \<and>
            sum_list (map (\<lambda>v. the (map_of backwardrank v) /
                      sum_list (map (\<lambda>u. the (map_of backwardrank u)) variablelist)) variablelist) = 1"
      by (rule blended_extreme[OF assms _ nz]) (use nn in simp)
  qed
qed


text \<open>
  A forward ranking in which the only listed variable has score 0: the total is 0,
  the division gives \<open>nan\<close>, and \<open>calc_blended_rank\<close> returns it.
\<close>

theorem calc_blended_rank_zero_total_counterexample:
  "calc_blended_rank [(''a'', 0), (''b'', 1)] [(''a'', 0), (''b'', 1)] [''a''] 0 =
     Inr ([(''a'', NaN)], [(''a'', NaN)])"
  by (simp add: calc_blended_rank_def dict_get_def dict_set_def dict_values_def np_divide_def
      sorted_by_npscore_def)

theorem calc_blended_rank_alpha_extremes_witness:
  "distinct [''a'', ''b''] \<and>
   (\<exists>rankinglist.
      calc_blended_rank [(''a'', 1/4), (''b'', 1/4), (''d'', 1/2)] [(''a'', 1/2), (''b'', 1/6), (''e'', 1/3)]
        [''a'', ''b''] 0 = Inr ([(''a'', Fin (1/2)), (''b'', Fin (1/2))], rankinglist)) \<and>
   (\<exists>rankinglist.
      calc_blended_rank [(''a'', 1/4), (''b'', 1/4), (''d'', 1/2)] [(''a'', 1/2), (''b'', 1/6), (''e'', 1/3)]
        [''a'', ''b''] 1 = Inr ([(''a'', Fin (3/4)), (''b'', Fin (1/4))], rankinglist))"
proof -
  let ?fr = "[(''a'', 1/4), (''b'', 1/4), (''d'', 1/2)] :: real dict"
  let ?br = "[(''a'', 1/2), (''b'', 1/6), (''e'', 1/3)] :: real dict"
  have d: "distinct [''a'', ''b'']" by simp
  have k: "\<forall>v\<in>set [''a'', ''b'']. v \<in> fst ` set ?fr \<and> v \<in> fst ` set ?br" by simp
  note t = calc_blended_rank_alpha_extremes[OF d k]
  have p0: "(\<forall>v\<in>set [''a'', ''b'']. 0 \<le> the (map_of ?fr v)) \<and>
      sum_list (map (\<lambda>u. the (map_of ?fr u)) [''a'', ''b'']) \<noteq> 0" by simp
  have p1: "(\<forall>v\<in>set [''a'', ''b'']. 0 \<le> the (map_of ?br v)) \<and>
      sum_list (map (\<lambda>u. the (map_of ?br u)) [''a'', ''b'']) \<noteq> 0" by simp
  from t[THEN conjunct1, THEN mp, OF p0, THEN conjunct1]
  have r0: "\<exists>rankinglist. calc_blended_rank ?fr ?br [''a'', ''b''] 0 =
      Inr ([(''a'', Fin (1/2)), (''b'', Fin (1/2))], rankinglist)" by simp
  from t[THEN conjunct2, THEN mp, OF p1, THEN conjunct1]
  have r1: "\<exists>rankinglist. calc_blended_rank ?fr ?br [''a'', ''b''] 1 =
      Inr ([(''a'', Fin (3/4)), (''b'', Fin (1/4))], rankinglist)" by simp
  from d r0 r1 show ?thesis by (intro conjI)
qed

subsection \<open>Graph operations\<close>

lemma nodes_dict_set:
  "nodes (dict_set g n s) = (if n \<in> set (nodes g) then nodes g else nodes g @ [n])"
  by (simp add: nodes_def dict_set_def update_keys)

lemma succ_dict_set: "succ (dict_set g n s) u = (if u = n then s else succ g u)"
  by (simp add: succ_def map_of_dict_set)

lemma map_of_None_nodes: "map_of g n = None \<longleftrightarrow> n \<notin> set (nodes g)"
  by (simp add: nodes_def map_of_eq_None_iff)

lemma succ_absent: "n \<notin> set (nodes g) \<Longrightarrow> succ g n = []"
  by (simp add: succ_def map_of_None_nodes[symmetric])

lemma nodes_add_node:
  "nodes (add_node g n) = (if n \<in> set (nodes g) then nodes g else nodes g @ [n])"
proof (cases "map_of g n")
  case None
  then have "n \<notin> set (nodes g)" by (simp add: map_of_None_nodes)
  with None show ?thesis by (simp add: add_node_def nodes_dict_set)
next
  case (Some s)
  then have "n \<in> set (nodes g)" using map_of_None_nodes[of g n] by simp
  with Some show ?thesis by (simp add: add_node_def)
qed

lemma succ_add_node: "succ (add_node g n) u = succ g u"
proof (cases "map_of g n")
  case None
  then have "n \<notin> set (nodes g)" by (simp add: map_of_None_nodes)
  with None show ?thesis by (simp add: add_node_def succ_dict_set succ_absent)
next
  case (Some s)
  then show ?thesis by (simp add: add_node_def)
qed

lemma set_nodes_add_node: "set (nodes (add_node g n)) = insert n (set (nodes g))"
  by (auto simp: nodes_add_node)

lemma nodes_add_edge: "nodes (add_edge g u v w) = nodes (add_node (add_node g u) v)"
  by (simp add: add_edge_def Let_def nodes_dict_set set_nodes_add_node)

lemma set_nodes_add_edge: "set (nodes (add_edge g u v w)) = insert u (insert v (set (nodes g)))"
  by (auto simp: nodes_add_edge set_nodes_add_node)

lemma succ_add_edge:
  "succ (add_edge g u v w) a = (if a = u then dict_set (succ g u) v w else succ g a)"
  by (simp add: add_edge_def Let_def succ_dict_set succ_add_node)

lemma weight_add_edge:
  "weight (add_edge g u v w) a b = (if a = u \<and> b = v then Some w else weight g a b)"
  by (simp add: weight_def succ_add_edge map_of_dict_set)

lemma length_dict_set:
  "length (dict_set d k v) = (if map_of d k = None then Suc (length d) else length d)"
proof -
  have "length (dict_set d k v) = length (map fst (AList.update k v d))"
    by (simp add: dict_set_def)
  also have "\<dots> = (if k \<in> set (map fst d) then length d else Suc (length d))"
    by (simp add: update_keys)
  finally show ?thesis by (simp add: map_of_eq_None_iff)
qed

lemma out_degree_add_edge:
  "out_degree (add_edge g u v w) a =
     (if a = u \<and> weight g u v = None then Suc (out_degree g u) else out_degree g a)"
  by (simp add: out_degree_def succ_add_edge length_dict_set weight_def)

lemma wf_graph_DiGraph: "wf_graph DiGraph"
  by (simp add: wf_graph_def DiGraph_def nodes_def succ_def)

lemma distinct_nodes_add_node: "distinct (nodes g) \<Longrightarrow> distinct (nodes (add_node g n))"
  by (simp add: nodes_add_node)

lemma wf_graph_add_edge:
  assumes "wf_graph g"
  shows "wf_graph (add_edge g u v w)"
proof -
  from assms have d: "distinct (nodes g)"
    and s: "\<And>a. distinct (map fst (succ g a))" "\<And>a. fst ` set (succ g a) \<subseteq> set (nodes g)"
    by (auto simp: wf_graph_def)
  have "distinct (nodes (add_edge g u v w))"
    by (simp add: nodes_add_edge distinct_nodes_add_node d)
  moreover have "distinct (map fst (succ (add_edge g u v w) a))" for a
    using s(1) by (simp add: succ_add_edge dict_set_def distinct_update)
  moreover have "fst ` set (succ (add_edge g u v w) a) \<subseteq> set (nodes (add_edge g u v w))" for a
  proof (cases "a = u")
    case True
    have "fst ` set (dict_set (succ g u) v w) = set (map fst (AList.update v w (succ g u)))"
      by (simp add: dict_set_def)
    also have "\<dots> \<subseteq> insert v (fst ` set (succ g u))"
      by (auto simp: update_keys)
    finally show ?thesis using s(2)[of u] True
      by (auto simp: succ_add_edge set_nodes_add_edge)
  next
    case False
    then show ?thesis using s(2)[of a] by (auto simp: succ_add_edge set_nodes_add_edge)
  qed
  ultimately show ?thesis unfolding wf_graph_def by blast
qed

lemma weight_Some_nodes:
  assumes "wf_graph g" "weight g a b = Some w"
  shows "a \<in> set (nodes g) \<and> b \<in> set (nodes g)"
proof
  from assms(2) have "succ g a \<noteq> []" by (auto simp: weight_def)
  then show "a \<in> set (nodes g)" using succ_absent by blast
  from assms(2) have "b \<in> fst ` set (succ g a)"
    by (metis weight_def domI dom_map_of_conv_image_fst)
  with assms(1) show "b \<in> set (nodes g)" by (auto simp: wf_graph_def)
qed

lemma weight_None_absent:
  "wf_graph g \<Longrightarrow> a \<notin> set (nodes g) \<or> b \<notin> set (nodes g) \<Longrightarrow> weight g a b = None"
  using weight_Some_nodes by (cases "weight g a b") auto

subsection \<open>Names of dummy nodes\<close>

lemma str_nonempty: "str n \<noteq> []"
  by (subst str.simps) simp

lemma digit_char_inj:
  assumes "a < 10" "b < 10" "digit_char a = digit_char b"
  shows "a = b"
proof -
  have d: "distinct ''0123456789''" by simp
  have "a < length ''0123456789''" "b < length ''0123456789''" using assms by simp_all
  with d assms(3) show ?thesis
    unfolding digit_char_def by (simp only: nth_eq_iff_index_eq)
qed

lemma length_str_small: "n < 10 \<Longrightarrow> length (str n) = 1"
  by (subst str.simps) simp

lemma length_str_large: "\<not> n < 10 \<Longrightarrow> length (str n) \<ge> 2"
proof -
  assume a: "\<not> n < 10"
  have "length (str (n div 10)) \<ge> 1" using str_nonempty[of "n div 10"]
    by (cases "str (n div 10)") auto
  with a show ?thesis by (subst str.simps) simp
qed

lemma str_inj: "str n = str m \<Longrightarrow> n = m"
proof (induction n arbitrary: m rule: str.induct)
  case (1 n)
  show ?case
  proof (cases "n < 10")
    case True
    then have "length (str m) = 1" using "1.prems" length_str_small[of n] by simp
    then have m: "m < 10" using length_str_large[of m] by (cases "m < 10") auto
    from True m "1.prems" have "digit_char n = digit_char m"
      by (subst (asm) str.simps, subst (asm) (2) str.simps) simp
    with True m show ?thesis by (rule digit_char_inj)
  next
    case False
    then have "length (str m) \<ge> 2" using "1.prems" length_str_large[of n] by simp
    then have m: "\<not> m < 10" using length_str_small[of m] by (cases "m < 10") auto
    have n_eq: "str n = str (n div 10) @ [digit_char (n mod 10)]"
      using False by (subst str.simps) simp
    have m_eq: "str m = str (m div 10) @ [digit_char (m mod 10)]"
      using m by (subst str.simps) simp
    from "1.prems" n_eq m_eq have a: "str (n div 10) = str (m div 10)"
      and b: "digit_char (n mod 10) = digit_char (m mod 10)" by simp_all
    from "1.IH"[OF False a] have "n div 10 = m div 10" .
    moreover have "n mod 10 = m mod 10" by (rule digit_char_inj[OF _ _ b]) simp_all
    ultimately show ?thesis by (metis div_mult_mod_eq)
  qed
qed

lemma dummy_name_inj: "name @ str k = name @ str k' \<longleftrightarrow> k = k'"
  using str_inj by auto

subsection \<open>The loop of buildcase\<close>

lemma buildcase_loop_char:
  assumes "wf_graph h" "distinct xs" "set xs \<subseteq> set (nodes h)"
    and "\<forall>k\<ge>c. name @ str k \<notin> set (nodes h)"
    and "buildcase_loop w name xs (c, h) = (c', h')"
  shows "c' = c + length (singles h xs) \<and>
     nodes h' = nodes h @ map (\<lambda>k. name @ str k) [c..<c'] \<and>
     wf_graph h' \<and>
     (\<forall>a b. weight h' a b =
        (if \<exists>i<length (singles h xs). a = singles h xs ! i \<and> b = name @ str (c + i)
         then Some w else weight h a b)) \<and>
     (\<forall>a. out_degree h' a =
        (if a \<in> set (singles h xs) then Suc (out_degree h a) else out_degree h a))"
  using assms
proof (induction xs arbitrary: c h)
  case Nil
  then show ?case by (simp add: singles_def)
next
  case (Cons x xs)
  show ?case
  proof (cases "out_degree h x = 1")
    case False
    then have run: "buildcase_loop w name xs (c, h) = (c', h')" using Cons.prems(5) by simp
    have s: "singles h (x # xs) = singles h xs" using False by (simp add: singles_def)
    from Cons.IH[OF Cons.prems(1) _ _ Cons.prems(4) run] Cons.prems(2,3)
    show ?thesis unfolding s by simp
  next
    case True
    let ?d = "name @ str c"
    let ?h1 = "add_edge h x ?d w"
    from True have run: "buildcase_loop w name xs (Suc c, ?h1) = (c', h')"
      using Cons.prems(5) by simp
    have xin: "x \<in> set (nodes h)" and xnot: "x \<notin> set xs" and dxs: "distinct xs"
      using Cons.prems(2,3) by auto
    have dfresh: "?d \<notin> set (nodes h)" using Cons.prems(4) by simp
    have wnone: "weight h x ?d = None"
      using weight_None_absent[OF Cons.prems(1)] dfresh by blast
    have wf1: "wf_graph ?h1" by (rule wf_graph_add_edge[OF Cons.prems(1)])
    have nodes1: "nodes ?h1 = nodes h @ [?d]"
      using xin dfresh by (simp add: nodes_add_edge nodes_add_node)
    have sub1: "set xs \<subseteq> set (nodes ?h1)" using Cons.prems(3) by (auto simp: nodes1)
    have fresh1: "\<forall>k\<ge>Suc c. name @ str k \<notin> set (nodes ?h1)"
      using Cons.prems(4) by (auto simp: nodes1 dest: str_inj)
    have od1: "out_degree ?h1 a = (if a = x then Suc (out_degree h x) else out_degree h a)" for a
      by (simp add: out_degree_add_edge wnone)
    have s1: "singles ?h1 xs = singles h xs"
      unfolding singles_def using xnot by (intro filter_cong) (auto simp: od1)
    have s: "singles h (x # xs) = x # singles h xs" using True by (simp add: singles_def)
    have xns: "x \<notin> set (singles h xs)" using xnot by (simp add: singles_def)
    from Cons.IH[OF wf1 dxs sub1 fresh1 run]
    have c': "c' = Suc c + length (singles h xs)"
      and n': "nodes h' = nodes ?h1 @ map (\<lambda>k. name @ str k) [Suc c..<c']"
      and wf': "wf_graph h'"
      and w': "\<And>a b. weight h' a b =
        (if \<exists>i<length (singles h xs). a = singles h xs ! i \<and> b = name @ str (Suc c + i)
         then Some w else weight ?h1 a b)"
      and o': "\<And>a. out_degree h' a =
        (if a \<in> set (singles h xs) then Suc (out_degree ?h1 a) else out_degree ?h1 a)"
      unfolding s1 by auto
    have "c' = c + length (singles h (x # xs))" using c' s by simp
    moreover have "nodes h' = nodes h @ map (\<lambda>k. name @ str k) [c..<c']"
    proof -
      have "c < c'" using c' by simp
      then have "[c..<c'] = c # [Suc c..<c']" by (rule upt_conv_Cons)
      then show ?thesis using n' nodes1 by simp
    qed
    moreover have "weight h' a b =
        (if \<exists>i<length (singles h (x # xs)). a = singles h (x # xs) ! i \<and> b = name @ str (c + i)
         then Some w else weight h a b)" for a b
    proof -
      have ex: "(\<exists>i<length (singles h (x # xs)). a = singles h (x # xs) ! i \<and> b = name @ str (c + i))
        \<longleftrightarrow> (a = x \<and> b = ?d) \<or>
            (\<exists>i<length (singles h xs). a = singles h xs ! i \<and> b = name @ str (Suc c + i))"
        (is "?L \<longleftrightarrow> ?A \<or> ?B")
      proof
        assume ?L
        then obtain i where i: "i < Suc (length (singles h xs))"
          "a = (x # singles h xs) ! i" "b = name @ str (c + i)" unfolding s by auto
        show "?A \<or> ?B"
        proof (cases i)
          case 0 with i show ?thesis by simp
        next
          case (Suc j) with i show ?thesis by auto
        qed
      next
        assume "?A \<or> ?B"
        then show ?L
        proof
          assume ?A
          then have "0 < length (singles h (x # xs)) \<and> a = singles h (x # xs) ! 0 \<and> b = name @ str (c + 0)"
            unfolding s by simp
          then show ?L by blast
        next
          assume ?B
          then obtain j where "j < length (singles h xs)" "a = singles h xs ! j" "b = name @ str (Suc c + j)"
            by blast
          then have "Suc j < length (singles h (x # xs)) \<and> a = singles h (x # xs) ! Suc j \<and> b = name @ str (c + Suc j)"
            unfolding s by simp
          then show ?L by blast
        qed
      qed
      show ?thesis unfolding ex w'[of a b] weight_add_edge by auto
    qed
    moreover have "out_degree h' a =
        (if a \<in> set (singles h (x # xs)) then Suc (out_degree h a) else out_degree h a)" for a
      unfolding o'[of a] od1 s using xns by auto
    ultimately show ?thesis using wf' by blast
  qed
qed

subsection \<open>Building the graph\<close>

lemma snd_set_enumerate: "snd ` set (List.enumerate k xs) = set xs"
  by (metis list.set_map map_snd_enumerate)

lemma buildgraph_rows_wf:
  "buildgraph_rows G C col colvar rs g = Inr g' \<Longrightarrow> wf_graph g \<Longrightarrow>
   wf_graph g' \<and> set (nodes g') \<subseteq> set (nodes g) \<union> insert colvar (snd ` set rs)"
proof (induction rs arbitrary: g)
  case Nil then show ?case by auto
next
  case (Cons r rs)
  obtain row rowvar where r: "r = (row, rowvar)" by (cases r)
  from Cons.prems(1) obtain c where c: "mget C row col = Inr c"
    unfolding r by (auto split: sum.splits)
  show ?case
  proof (cases "c = 0")
    case True
    with Cons.prems c r have "buildgraph_rows G C col colvar rs g = Inr g'" by simp
    from Cons.IH[OF this Cons.prems(2)] show ?thesis by auto
  next
    case False
    with Cons.prems(1) c r obtain w where
      run: "buildgraph_rows G C col colvar rs (add_edge g colvar rowvar w) = Inr g'"
      by (auto split: sum.splits)
    from Cons.IH[OF run wf_graph_add_edge[OF Cons.prems(2)]] r
    show ?thesis by (auto simp: set_nodes_add_edge)
  qed
qed

lemma buildgraph_cols_wf:
  "buildgraph_cols vs G C cs g = Inr g' \<Longrightarrow> wf_graph g \<Longrightarrow>
   wf_graph g' \<and> set (nodes g') \<subseteq> set (nodes g) \<union> set vs \<union> snd ` set cs"
proof (induction cs arbitrary: g)
  case Nil then show ?case by simp
next
  case (Cons c cs)
  obtain col colvar where c: "c = (col, colvar)" by (cases c)
  from Cons.prems(1) obtain g1 where
    rows: "buildgraph_rows G C col colvar (List.enumerate 0 vs) g = Inr g1" and
    run: "buildgraph_cols vs G C cs g1 = Inr g'"
    unfolding c by (auto split: sum.splits)
  from buildgraph_rows_wf[OF rows Cons.prems(2)]
  have w1: "wf_graph g1" and n1: "set (nodes g1) \<subseteq> set (nodes g) \<union> insert colvar (set vs)"
    by (auto simp: snd_set_enumerate)
  from Cons.IH[OF run w1] n1 c show ?case by auto
qed

lemma buildgraph_wf:
  assumes "buildgraph vs G C = Inr g"
  shows "wf_graph g \<and> set (nodes g) \<subseteq> set vs"
proof -
  from buildgraph_cols_wf[OF assms[unfolded buildgraph_def] wf_graph_DiGraph]
  show ?thesis by (auto simp: DiGraph_def nodes_def snd_set_enumerate)
qed

lemma buildgraph_rows_char:
  assumes "distinct xs"
    and "\<forall>i<length xs. k + i < nrows C \<and> k + i < nrows G"
    and "col < ncols C" "col < ncols G"
  shows "\<exists>g'. buildgraph_rows G C col colvar (List.enumerate k xs) g = Inr g' \<and>
     set (nodes g') = set (nodes g) \<union>
        {v. \<exists>i<length xs. entry C (k + i) col \<noteq> 0 \<and> (v = colvar \<or> v = xs ! i)} \<and>
     (\<forall>i<length xs. entry C (k + i) col \<noteq> 0 \<longrightarrow>
        weight g' colvar (xs ! i) = Some (entry G (k + i) col)) \<and>
     (\<forall>a b. \<not> (a = colvar \<and> (\<exists>i<length xs. b = xs ! i \<and> entry C (k + i) col \<noteq> 0)) \<longrightarrow>
        weight g' a b = weight g a b)"
  using assms(1,2)
proof (induction xs arbitrary: k g)
  case Nil
  then show ?case by simp
next
  case (Cons x xs)
  have dxs: "distinct xs" and xn: "x \<notin> set xs" using Cons.prems(1) by auto
  have bnd: "\<forall>i<length xs. Suc k + i < nrows C \<and> Suc k + i < nrows G"
    using Cons.prems(2) by auto
  have k: "k < nrows C" "k < nrows G" using Cons.prems(2) by auto
  let ?g1 = "if entry C k col \<noteq> 0 then add_edge g colvar x (entry G k col) else g"
  from Cons.IH[OF dxs bnd, of ?g1] obtain g' where
    run: "buildgraph_rows G C col colvar (List.enumerate (Suc k) xs) ?g1 = Inr g'" and
    nd: "set (nodes g') = set (nodes ?g1) \<union>
        {v. \<exists>i<length xs. entry C (Suc k + i) col \<noteq> 0 \<and> (v = colvar \<or> v = xs ! i)}" and
    ws: "\<And>i. i < length xs \<Longrightarrow> entry C (Suc k + i) col \<noteq> 0 \<Longrightarrow>
        weight g' colvar (xs ! i) = Some (entry G (Suc k + i) col)" and
    wo: "\<And>a b. \<not> (a = colvar \<and> (\<exists>i<length xs. b = xs ! i \<and> entry C (Suc k + i) col \<noteq> 0)) \<Longrightarrow>
        weight g' a b = weight ?g1 a b"
    by blast
  have r: "buildgraph_rows G C col colvar (List.enumerate k (x # xs)) g = Inr g'"
    using run k assms(3,4) by (cases "entry C k col = 0") (simp_all add: mget_def)
  have ex: "(\<exists>i<length (x # xs). P i) \<longleftrightarrow> P 0 \<or> (\<exists>i<length xs. P (Suc i))" for P
    by (auto simp: less_Suc_eq_0_disj)
  have n: "set (nodes g') = set (nodes g) \<union>
        {v. \<exists>i<length (x # xs). entry C (k + i) col \<noteq> 0 \<and> (v = colvar \<or> v = (x # xs) ! i)}"
    unfolding nd ex by (auto simp: set_nodes_add_edge)
  have w1: "weight g' colvar ((x # xs) ! i) = Some (entry G (k + i) col)"
    if i: "i < length (x # xs)" and c: "entry C (k + i) col \<noteq> 0" for i
  proof (cases i)
    case 0
    have "\<not> (\<exists>i<length xs. x = xs ! i \<and> entry C (Suc k + i) col \<noteq> 0)"
      using xn by (auto simp: in_set_conv_nth)
    then have "weight g' colvar x = weight ?g1 colvar x" using wo[of colvar x] by blast
    with 0 c show ?thesis by (simp add: weight_add_edge)
  next
    case (Suc j)
    with i c ws[of j] show ?thesis by simp
  qed
  have w2: "weight g' a b = weight g a b"
    if "\<not> (a = colvar \<and> (\<exists>i<length (x # xs). b = (x # xs) ! i \<and> entry C (k + i) col \<noteq> 0))" for a b
  proof -
    from that have a0: "\<not> (a = colvar \<and> b = x \<and> entry C k col \<noteq> 0)"
      and a1: "\<not> (a = colvar \<and> (\<exists>i<length xs. b = xs ! i \<and> entry C (Suc k + i) col \<noteq> 0))"
      unfolding ex by auto
    from wo[OF a1] a0 show ?thesis by (auto simp: weight_add_edge)
  qed
  from r n w1 w2 show ?case by blast
qed

lemma buildgraph_cols_char:
  assumes "distinct vs" "distinct ys"
    and "length vs \<le> nrows C" "length vs \<le> nrows G"
    and "\<forall>j<length ys. k + j < ncols C \<and> k + j < ncols G"
  shows "\<exists>g'. buildgraph_cols vs G C (List.enumerate k ys) g = Inr g' \<and>
     set (nodes g') = set (nodes g) \<union>
        {v. \<exists>j<length ys. \<exists>i<length vs. entry C i (k + j) \<noteq> 0 \<and> (v = ys ! j \<or> v = vs ! i)} \<and>
     (\<forall>j<length ys. \<forall>i<length vs. entry C i (k + j) \<noteq> 0 \<longrightarrow>
        weight g' (ys ! j) (vs ! i) = Some (entry G i (k + j))) \<and>
     (\<forall>a b. \<not> (\<exists>j<length ys. \<exists>i<length vs. a = ys ! j \<and> b = vs ! i \<and> entry C i (k + j) \<noteq> 0) \<longrightarrow>
        weight g' a b = weight g a b)"
  using assms(2,5)
proof (induction ys arbitrary: k g)
  case Nil
  then show ?case by simp
next
  case (Cons y ys)
  have dys: "distinct ys" and yn: "y \<notin> set ys" using Cons.prems(1) by auto
  have bnd: "\<forall>j<length ys. Suc k + j < ncols C \<and> Suc k + j < ncols G"
    using Cons.prems(2) by auto
  have k: "k < ncols C" "k < ncols G" using Cons.prems(2) by auto
  have rb: "\<forall>i<length vs. 0 + i < nrows C \<and> 0 + i < nrows G" using assms(3,4) by auto
  from buildgraph_rows_char[OF assms(1) rb k, of y g] obtain g1 where
    rows: "buildgraph_rows G C k y (List.enumerate 0 vs) g = Inr g1" and
    nd1: "set (nodes g1) = set (nodes g) \<union>
        {v. \<exists>i<length vs. entry C i k \<noteq> 0 \<and> (v = y \<or> v = vs ! i)}" and
    ws1: "\<And>i. i < length vs \<Longrightarrow> entry C i k \<noteq> 0 \<Longrightarrow> weight g1 y (vs ! i) = Some (entry G i k)" and
    wo1: "\<And>a b. \<not> (a = y \<and> (\<exists>i<length vs. b = vs ! i \<and> entry C i k \<noteq> 0)) \<Longrightarrow>
        weight g1 a b = weight g a b"
    by auto
  from Cons.IH[OF dys bnd, of g1] obtain g' where
    run: "buildgraph_cols vs G C (List.enumerate (Suc k) ys) g1 = Inr g'" and
    nd: "set (nodes g') = set (nodes g1) \<union>
        {v. \<exists>j<length ys. \<exists>i<length vs. entry C i (Suc k + j) \<noteq> 0 \<and> (v = ys ! j \<or> v = vs ! i)}" and
    ws: "\<And>j i. j < length ys \<Longrightarrow> i < length vs \<Longrightarrow> entry C i (Suc k + j) \<noteq> 0 \<Longrightarrow>
        weight g' (ys ! j) (vs ! i) = Some (entry G i (Suc k + j))" and
    wo: "\<And>a b. \<not> (\<exists>j<length ys. \<exists>i<length vs. a = ys ! j \<and> b = vs ! i \<and> entry C i (Suc k + j) \<noteq> 0) \<Longrightarrow>
        weight g' a b = weight g1 a b"
    by blast
  have r: "buildgraph_cols vs G C (List.enumerate k (y # ys)) g = Inr g'"
    using rows run by simp
  have ex: "(\<exists>j<length (y # ys). P j) \<longleftrightarrow> P 0 \<or> (\<exists>j<length ys. P (Suc j))" for P
    by (auto simp: less_Suc_eq_0_disj)
  have n: "set (nodes g') = set (nodes g) \<union>
        {v. \<exists>j<length (y # ys). \<exists>i<length vs. entry C i (k + j) \<noteq> 0 \<and> (v = (y # ys) ! j \<or> v = vs ! i)}"
    unfolding nd nd1 ex by auto
  have w1: "weight g' ((y # ys) ! j) (vs ! i) = Some (entry G i (k + j))"
    if j: "j < length (y # ys)" and i: "i < length vs" and c: "entry C i (k + j) \<noteq> 0" for j i
  proof (cases j)
    case 0
    have "\<not> (\<exists>j<length ys. \<exists>i'<length vs. y = ys ! j \<and> vs ! i = vs ! i' \<and> entry C i' (Suc k + j) \<noteq> 0)"
      using yn by (auto simp: in_set_conv_nth)
    then have "weight g' y (vs ! i) = weight g1 y (vs ! i)" by (rule wo)
    with 0 c i ws1[of i] show ?thesis by simp
  next
    case (Suc j')
    with j i c ws[of j' i] show ?thesis by simp
  qed
  have w2: "weight g' a b = weight g a b"
    if "\<not> (\<exists>j<length (y # ys). \<exists>i<length vs. a = (y # ys) ! j \<and> b = vs ! i \<and> entry C i (k + j) \<noteq> 0)" for a b
  proof -
    from that have a0: "\<not> (a = y \<and> (\<exists>i<length vs. b = vs ! i \<and> entry C i k \<noteq> 0))"
      and a1: "\<not> (\<exists>j<length ys. \<exists>i<length vs. a = ys ! j \<and> b = vs ! i \<and> entry C i (Suc k + j) \<noteq> 0)"
      unfolding ex by auto
    from wo[OF a1] wo1[OF a0] show ?thesis by simp
  qed
  from r n w1 w2 show ?case by blast
qed

lemma weight_DiGraph: "weight DiGraph a b = None"
  by (simp add: weight_def succ_def DiGraph_def)

text \<open>
  Claim C5, as the code has it. For a duplicate-free variable list and matrices of
  its dimension, \<open>buildgraph\<close> returns a graph whose nodes are exactly the
  variables that are an end of some edge, that is the variables with a nonzero
  connection entry in their row or in their column; a variable with none is not a node.
  The edge from \<open>variables[col]\<close> to \<open>variables[row]\<close> is present, with weight
  \<open>gainmatrix[row, col]\<close>, exactly when \<open>connections[row, col]\<close> is not zero, and
  there is no other edge.
\<close>

theorem buildgraph_nodes_edges:
  assumes "distinct variables"
    and "nrows connections = length variables" "ncols connections = length variables"
    and "nrows gainmatrix = length variables" "ncols gainmatrix = length variables"
  shows "\<exists>m_graph. buildgraph variables gainmatrix connections = Inr m_graph \<and>
     set (nodes m_graph) =
       {v. \<exists>row<length variables. \<exists>col<length variables.
             entry connections row col \<noteq> 0 \<and> (v = variables ! row \<or> v = variables ! col)} \<and>
     distinct (nodes m_graph) \<and>
     (\<forall>row<length variables. \<forall>col<length variables.
        weight m_graph (variables ! col) (variables ! row) =
          (if entry connections row col \<noteq> 0 then Some (entry gainmatrix row col) else None)) \<and>
     (\<forall>a b. weight m_graph a b \<noteq> None \<longrightarrow> a \<in> set variables \<and> b \<in> set variables)"
proof -
  let ?n = "length variables"
  have cb: "\<forall>j<?n. 0 + j < ncols connections \<and> 0 + j < ncols gainmatrix"
    using assms by simp
  from buildgraph_cols_char[OF assms(1) assms(1) _ _ cb, of DiGraph] assms(2,4)
  obtain g where
    run: "buildgraph variables gainmatrix connections = Inr g" and
    nd: "set (nodes g) = set (nodes DiGraph) \<union>
        {v. \<exists>j<?n. \<exists>i<?n. entry connections i (0 + j) \<noteq> 0 \<and> (v = variables ! j \<or> v = variables ! i)}" and
    ws: "\<And>j i. j < ?n \<Longrightarrow> i < ?n \<Longrightarrow> entry connections i (0 + j) \<noteq> 0 \<Longrightarrow>
        weight g (variables ! j) (variables ! i) = Some (entry gainmatrix i (0 + j))" and
    wo: "\<And>a b. \<not> (\<exists>j<?n. \<exists>i<?n. a = variables ! j \<and> b = variables ! i \<and> entry connections i (0 + j) \<noteq> 0) \<Longrightarrow>
        weight g a b = weight DiGraph a b"
    unfolding buildgraph_def by (auto simp: le_refl)
  from buildgraph_wf[OF run] have wf: "wf_graph g" and sub: "set (nodes g) \<subseteq> set variables" by auto
  have n: "set (nodes g) =
       {v. \<exists>row<?n. \<exists>col<?n. entry connections row col \<noteq> 0 \<and> (v = variables ! row \<or> v = variables ! col)}"
    unfolding nd by (auto simp: DiGraph_def nodes_def)
  have e: "weight g (variables ! col) (variables ! row) =
          (if entry connections row col \<noteq> 0 then Some (entry gainmatrix row col) else None)"
    if row: "row < ?n" and col: "col < ?n" for row col
  proof (cases "entry connections row col \<noteq> 0")
    case True
    with ws[OF col row] show ?thesis by simp
  next
    case False
    have "\<not> (\<exists>j<?n. \<exists>i<?n. variables ! col = variables ! j \<and> variables ! row = variables ! i \<and>
            entry connections i (0 + j) \<noteq> 0)"
      using False row col assms(1) by (auto simp: nth_eq_iff_index_eq)
    from wo[OF this] False show ?thesis by (simp add: weight_DiGraph)
  qed
  have m: "a \<in> set variables \<and> b \<in> set variables" if "weight g a b \<noteq> None" for a b
    using that weight_Some_nodes[OF wf] sub by (cases "weight g a b") auto
  from wf have "distinct (nodes g)" by (simp add: wf_graph_def)
  with run n e m show ?thesis by blast
qed

subsection \<open>Augmentation\<close>

lemma augmented_char:
  assumes wf: "wf_graph g" and fr: "fresh_names name g"
  defines "S \<equiv> singles g (nodes g)"
  shows "nodes (augmented w name g) = nodes g @ map (\<lambda>k. name @ str k) [1..<Suc (length S)]"
    and "wf_graph (augmented w name g)"
    and "weight (augmented w name g) a b =
        (if \<exists>i<length S. a = S ! i \<and> b = name @ str (Suc i) then Some w else weight g a b)"
    and "out_degree (augmented w name g) a =
        (if a \<in> set S then Suc (out_degree g a) else out_degree g a)"
proof -
  obtain c' h' where run: "buildcase_loop w name (nodes g) (1, g) = (c', h')"
    by (cases "buildcase_loop w name (nodes g) (1, g)")
  have d: "distinct (nodes g)" using wf by (simp add: wf_graph_def)
  have f: "\<forall>k\<ge>1. name @ str k \<notin> set (nodes g)" using fr by (simp add: fresh_names_def)
  from buildcase_loop_char[OF wf d subset_refl f run]
  have c': "c' = 1 + length S"
    and n: "nodes h' = nodes g @ map (\<lambda>k. name @ str k) [1..<c']"
    and w': "wf_graph h'"
    and ws: "\<And>a b. weight h' a b =
        (if \<exists>i<length S. a = S ! i \<and> b = name @ str (1 + i) then Some w else weight g a b)"
    and od: "\<And>a. out_degree h' a = (if a \<in> set S then Suc (out_degree g a) else out_degree g a)"
    unfolding S_def by auto
  have h': "augmented w name g = h'" unfolding augmented_def run by simp
  show "nodes (augmented w name g) = nodes g @ map (\<lambda>k. name @ str k) [1..<Suc (length S)]"
    using n c' h' by simp
  show "wf_graph (augmented w name g)" using w' h' by simp
  show "weight (augmented w name g) a b =
        (if \<exists>i<length S. a = S ! i \<and> b = name @ str (Suc i) then Some w else weight g a b)"
    using ws[of a b] h' by simp
  show "out_degree (augmented w name g) a =
        (if a \<in> set S then Suc (out_degree g a) else out_degree g a)"
    using od[of a] h' by simp
qed

lemma buildcase_store:
  "buildcase w r name st = (res, st') \<Longrightarrow>
   st' = st(r := augmented w name (st r)) \<and>
   res = (T (to_numpy_matrix (augmented w name (st r)) False),
          T (to_numpy_matrix (augmented w name (st r)) True),
          nodes (augmented w name (st r)))"
  by (auto simp: buildcase_def augmented_def Let_def)

lemma length_filter_eq_one:
  "distinct xs \<Longrightarrow> z \<in> set xs \<Longrightarrow> length (filter (\<lambda>a. a = z) xs) = 1"
proof (induction xs)
  case Nil then show ?case by simp
next
  case (Cons x xs)
  show ?case
  proof (cases "x = z")
    case True
    with Cons.prems have "z \<notin> set xs" by simp
    then have "filter (\<lambda>a. a = z) xs = []" by (auto simp: filter_empty_conv)
    with True show ?thesis by simp
  next
    case False
    with Cons show ?thesis by auto
  qed
qed

lemma singles_props:
  "set (singles g xs) = {u \<in> set xs. out_degree g u = 1}"
  "distinct xs \<Longrightarrow> distinct (singles g xs)"
  by (auto simp: singles_def)

text \<open>
  What the docstrings of \<open>rankforward\<close> and \<open>rankbackward\<close> describe holds when no
  node of the input graph already carries a dummy name (the prefix followed by a
  decimal counter): after \<open>buildcase\<close> every node that had out-degree 1 has
  out-degree at least 2; every node that had another out-degree keeps its outgoing
  and its incoming edges; and every node added has no outgoing edge and exactly one
  incoming edge, of weight \<open>dummyweight\<close>.
\<close>

lemma buildcase_augmentation:
  assumes wf: "wf_graph (st m_graph)"
    and fr: "fresh_names name (st m_graph)"
    and run: "buildcase dummyweight m_graph name st = (res, st')"
  shows "(\<forall>node\<in>set (nodes (st m_graph)).
            out_degree (st m_graph) node = 1 \<longrightarrow> 2 \<le> out_degree (st' m_graph) node) \<and>
         (\<forall>node\<in>set (nodes (st m_graph)).
            out_degree (st m_graph) node \<noteq> 1 \<longrightarrow>
              (\<forall>v. weight (st' m_graph) node v = weight (st m_graph) node v) \<and>
              (\<forall>u. weight (st' m_graph) u node = weight (st m_graph) u node)) \<and>
         (\<forall>dummy\<in>set (nodes (st' m_graph)) - set (nodes (st m_graph)).
            out_degree (st' m_graph) dummy = 0 \<and>
            in_degree (st' m_graph) dummy = 1 \<and>
            (\<forall>u. weight (st' m_graph) u dummy \<noteq> None \<longrightarrow>
                 weight (st' m_graph) u dummy = Some dummyweight))"
proof -
  let ?g = "st m_graph"
  let ?S = "singles ?g (nodes ?g)"
  let ?g' = "augmented dummyweight name ?g"
  from buildcase_store[OF run] have st': "st' m_graph = ?g'" by simp
  note ch = augmented_char[OF wf fr, of dummyweight]
  have dn: "distinct (nodes ?g)" using wf by (simp add: wf_graph_def)
  have Sset: "set ?S = {u \<in> set (nodes ?g). out_degree ?g u = 1}" by (rule singles_props)
  have fresh: "name @ str k \<notin> set (nodes ?g)" for k using fr by (simp add: fresh_names_def)
  have a: "2 \<le> out_degree ?g' node" if "node \<in> set (nodes ?g)" "out_degree ?g node = 1" for node
    using that Sset by (simp add: ch(4))
  have b1: "weight ?g' node v = weight ?g node v"
    if "node \<in> set (nodes ?g)" "out_degree ?g node \<noteq> 1" for node v
  proof -
    from that Sset have "node \<notin> set ?S" by simp
    then have ne: "\<not> (\<exists>i<length ?S. node = ?S ! i \<and> v = name @ str (Suc i))" by auto
    show ?thesis by (subst ch(3)) (simp only: ne if_False)
  qed
  have b2: "weight ?g' u node = weight ?g u node" if "node \<in> set (nodes ?g)" for node u
  proof -
    from that fresh have ne: "\<not> (\<exists>i<length ?S. u = ?S ! i \<and> node = name @ str (Suc i))" by auto
    show ?thesis by (subst ch(3)) (simp only: ne if_False)
  qed
  have c: "out_degree ?g' dummy = 0 \<and> in_degree ?g' dummy = 1 \<and>
      (\<forall>u. weight ?g' u dummy \<noteq> None \<longrightarrow> weight ?g' u dummy = Some dummyweight)"
    if dm: "dummy \<in> set (nodes ?g') - set (nodes ?g)" for dummy
  proof -
    from dm have dnot: "dummy \<notin> set (nodes ?g)" by simp
    from dm have "dummy \<in> set (nodes ?g')" by blast
    then have "dummy \<in> set (nodes ?g) \<union> set (map (\<lambda>k. name @ str k) [1..<Suc (length ?S)])"
      unfolding ch(1) by (simp only: set_append)
    with dnot have "dummy \<in> set (map (\<lambda>k. name @ str k) [1..<Suc (length ?S)])" by blast
    then have "dummy \<in> (\<lambda>k. name @ str k) ` set [1..<Suc (length ?S)]"
      by (simp only: set_map)
    then obtain k where k0: "k \<in> set [1..<Suc (length ?S)]" and dk: "dummy = name @ str k"
      by (rule imageE)
    from k0 have k: "k \<in> {1..<Suc (length ?S)}" by (simp only: set_upt)
    then obtain i where i: "i < length ?S" and ki: "k = Suc i" by (cases k) auto
    have dS: "dummy \<notin> set ?S" using dnot Sset by simp
    have "out_degree ?g' dummy = out_degree ?g dummy"
      by (subst ch(4)) (simp only: dS if_False)
    also have "\<dots> = 0" using dnot by (simp add: out_degree_def succ_absent)
    finally have od: "out_degree ?g' dummy = 0" .
    have wg: "weight ?g u dummy = None" for u
      using weight_None_absent[OF wf] dnot by blast
    have wi: "weight ?g' u dummy = (if u = ?S ! i then Some dummyweight else None)" for u
    proof -
      have eq: "(\<exists>j<length ?S. u = ?S ! j \<and> dummy = name @ str (Suc j)) \<longleftrightarrow> u = ?S ! i"
        using i dk ki by (auto dest: str_inj)
      show ?thesis by (subst ch(3)) (simp only: eq wg)
    qed
    have zin: "?S ! i \<in> set (nodes ?g')" using i Sset nth_mem[OF i] by (auto simp: ch(1))
    have dg': "distinct (nodes ?g')" using ch(2) by (simp add: wf_graph_def)
    have "in_degree ?g' dummy = length (filter (\<lambda>u. u = ?S ! i) (nodes ?g'))"
      unfolding in_degree_def by (rule arg_cong[where f = length], rule filter_cong) (auto simp: wi)
    also have "\<dots> = 1" by (rule length_filter_eq_one[OF dg' zin])
    finally have "in_degree ?g' dummy = 1" .
    with od wi show ?thesis by auto
  qed
  from a b1 b2 c show ?thesis unfolding st' by blast
qed

subsection \<open>Concrete graphs\<close>

lemmas graph_eval =
  buildgraph_def mget_def add_edge_def add_node_def dict_set_def succ_def DiGraph_def
  nodes_def out_degree_def weight_def enumerate_eq_zip upt_rec

text \<open>
  Three variables and the single connection from \<open>A\<close> to \<open>B\<close>: the variable \<open>C\<close>, which
  has no connection, is not a node of the graph that \<open>buildgraph\<close> returns.
\<close>

theorem buildgraph_isolated_counterexample:
  "buildgraph [''A'', ''B'', ''C'']
     \<lparr>nrows = 3, ncols = 3, entry = (\<lambda>row col. if row = 1 \<and> col = 0 then 2 else 0)\<rparr>
     \<lparr>nrows = 3, ncols = 3, entry = (\<lambda>row col. if row = 1 \<and> col = 0 then 1 else 0)\<rparr>
   = Inr [(''A'', [(''B'', 2)]), (''B'', [])] \<and>
   ''C'' \<notin> set (nodes [(''A'', [(''B'', 2)]), (''B'', [])])"
  by (simp add: graph_eval)

theorem buildgraph_nodes_edges_witness:
  "distinct [''A'', ''B'', ''C''] \<and>
   (\<exists>m_graph. buildgraph [''A'', ''B'', ''C'']
     \<lparr>nrows = 3, ncols = 3, entry = (\<lambda>row col. if row = 1 \<and> col = 0 then 2 else 0)\<rparr>
     \<lparr>nrows = 3, ncols = 3, entry = (\<lambda>row col. if row = 1 \<and> col = 0 then 1 else 0)\<rparr>
       = Inr m_graph \<and>
     weight m_graph ''A'' ''B'' = Some 2 \<and> weight m_graph ''B'' ''A'' = None \<and>
     ''C'' \<notin> set (nodes m_graph))"
proof -
  let ?vs = "[''A'', ''B'', ''C'']"
  let ?G = "\<lparr>nrows = 3, ncols = 3, entry = (\<lambda>row col. if row = 1 \<and> col = 0 then (2::real) else 0)\<rparr>"
  let ?C = "\<lparr>nrows = 3, ncols = 3, entry = (\<lambda>row col. if row = 1 \<and> col = 0 then (1::real) else 0)\<rparr>"
  have d: "distinct ?vs" by simp
  from buildgraph_nodes_edges[OF d, of ?C ?G] obtain g where
    run: "buildgraph ?vs ?G ?C = Inr g" and
    nd: "set (nodes g) = {v. \<exists>row<length ?vs. \<exists>col<length ?vs.
             entry ?C row col \<noteq> 0 \<and> (v = ?vs ! row \<or> v = ?vs ! col)}" and
    ed: "\<forall>row<length ?vs. \<forall>col<length ?vs.
        weight g (?vs ! col) (?vs ! row) =
          (if entry ?C row col \<noteq> 0 then Some (entry ?G row col) else None)"
    by auto
  have "weight g (?vs ! 0) (?vs ! 1) =
       (if entry ?C 1 0 \<noteq> 0 then Some (entry ?G 1 0) else None)"
    by (rule ed[rule_format]) simp_all
  then have e1: "weight g ''A'' ''B'' = Some 2" by simp
  have "weight g (?vs ! 1) (?vs ! 0) =
       (if entry ?C 0 1 \<noteq> 0 then Some (entry ?G 0 1) else None)"
    by (rule ed[rule_format]) simp_all
  then have e2: "weight g ''B'' ''A'' = None" by simp
  have "''C'' \<notin> set (nodes g)" unfolding nd by (auto simp: nth_Cons split: nat.splits)
  with d run e1 e2 show ?thesis by blast
qed

text \<open>
  Claim C4. By the docstrings of \<open>rankforward\<close> and \<open>rankbackward\<close>, every node of
  out-degree 1 is given an edge to a dummy node and then has out-degree 2.
  \<open>buildcase\<close> names the dummy by the prefix and a counter and never checks that the
  name is new. At a node \<open>x\<close> whose only successor is already named \<open>DV1\<close>, with the
  prefix \<open>DV\<close>, \<open>add_edge\<close> overwrites the weight of the edge that exists: no node is
  added and \<open>x\<close> keeps out-degree 1.
\<close>

theorem buildcase_name_clash:
  "wf_graph [(''x'', [(''DV1'', 3)]), (''DV1'', [])] \<and>
   out_degree [(''x'', [(''DV1'', 3)]), (''DV1'', [])] ''x'' = 1 \<and>
   snd (buildcase 5 0 ''DV'' (\<lambda>_. [(''x'', [(''DV1'', 3)]), (''DV1'', [])])) 0
     = [(''x'', [(''DV1'', 5)]), (''DV1'', [])] \<and>
   out_degree (snd (buildcase 5 0 ''DV'' (\<lambda>_. [(''x'', [(''DV1'', 3)]), (''DV1'', [])])) 0) ''x'' = 1"
proof -
  have s1: "str (Suc 0) = ''1''" by (simp add: str.simps digit_char_def)
  have "wf_graph [(''x'', [(''DV1'', 3)]), (''DV1'', [])]"
    by (auto simp: wf_graph_def nodes_def succ_def)
  then show ?thesis
    by (simp add: buildcase_def Let_def graph_eval s1)
qed

lemma buildcase_augmentation_example:
  "wf_graph [(''A'', [(''B'', 2)]), (''B'', [])] \<and>
   fresh_names ''DV'' [(''A'', [(''B'', 2)]), (''B'', [])] \<and>
   out_degree [(''A'', [(''B'', 2)]), (''B'', [])] ''A'' = 1 \<and>
   2 \<le> out_degree (snd (buildcase 5 0 ''DV'' (\<lambda>_. [(''A'', [(''B'', 2)]), (''B'', [])])) 0) ''A''"
proof -
  let ?g = "[(''A'', [(''B'', 2)]), (''B'', [])] :: digraph"
  let ?st = "(\<lambda>_. ?g) :: store"
  have wf: "wf_graph (?st 0)" by (auto simp: wf_graph_def nodes_def succ_def)
  have fr: "fresh_names ''DV'' (?st 0)" by (simp add: fresh_names_def nodes_def)
  have run: "buildcase 5 0 ''DV'' ?st = (fst (buildcase 5 0 ''DV'' ?st), snd (buildcase 5 0 ''DV'' ?st))"
    by simp
  have od: "out_degree ?g ''A'' = 1" by (simp add: out_degree_def succ_def)
  have "\<forall>node\<in>set (nodes (?st 0)). out_degree (?st 0) node = 1 \<longrightarrow>
      2 \<le> out_degree (snd (buildcase 5 0 ''DV'' ?st) 0) node"
    using buildcase_augmentation[OF wf fr run] by blast
  then have "2 \<le> out_degree (snd (buildcase 5 0 ''DV'' ?st) 0) ''A''"
    using od by (simp add: nodes_def)
  with wf fr od show ?thesis by simp
qed

subsection \<open>The caller's graph after \<open>buildcase\<close>\<close>

lemma buildcase_loop_mono:
  "buildcase_loop w name xs (c, h) = (c', h') \<Longrightarrow>
   c \<le> c' \<and> set (nodes h) \<subseteq> set (nodes h') \<and> (\<forall>a b. a \<notin> set xs \<longrightarrow> weight h' a b = weight h a b)"
proof (induction xs arbitrary: c h)
  case Nil
  then show ?case by simp
next
  case (Cons y ys)
  show ?case
  proof (cases "out_degree h y = 1")
    case True
    with Cons.prems have "buildcase_loop w name ys (Suc c, add_edge h y (name @ str c) w) = (c', h')"
      by simp
    from Cons.IH[OF this] show ?thesis
      by (auto simp: set_nodes_add_edge weight_add_edge)
  next
    case False
    with Cons.prems have "buildcase_loop w name ys (c, h) = (c', h')" by simp
    from Cons.IH[OF this] show ?thesis by auto
  qed
qed

lemma buildcase_loop_edges:
  "distinct xs \<Longrightarrow> buildcase_loop w name xs (c, h) = (c', h') \<Longrightarrow>
   x \<in> set xs \<Longrightarrow> out_degree h x = 1 \<Longrightarrow>
   \<exists>k. c \<le> k \<and> k < c' \<and> name @ str k \<in> set (nodes h') \<and> weight h' x (name @ str k) = Some w"
proof (induction xs arbitrary: c h)
  case Nil
  then show ?case by simp
next
  case (Cons y ys)
  have dys: "distinct ys" and yn: "y \<notin> set ys" using Cons.prems(1) by auto
  show ?case
  proof (cases "out_degree h y = 1")
    case True
    let ?d = "name @ str c"
    let ?h1 = "add_edge h y ?d w"
    from True Cons.prems(2) have run: "buildcase_loop w name ys (Suc c, ?h1) = (c', h')" by simp
    from buildcase_loop_mono[OF run] have m: "Suc c \<le> c'" "set (nodes ?h1) \<subseteq> set (nodes h')"
      "\<And>a b. a \<notin> set ys \<Longrightarrow> weight h' a b = weight ?h1 a b" by auto
    show ?thesis
    proof (cases "x = y")
      case True
      have "weight h' y ?d = Some w" using m(3)[OF yn] by (simp add: weight_add_edge)
      moreover have "?d \<in> set (nodes h')" using m(2) by (auto simp: set_nodes_add_edge)
      ultimately show ?thesis using True m(1) by auto
    next
      case False
      then have xin: "x \<in> set ys" using Cons.prems(3) by simp
      have od: "out_degree ?h1 x = 1" using False Cons.prems(4) by (simp add: out_degree_add_edge)
      from Cons.IH[OF dys run xin od] show ?thesis by (meson Suc_leD)
    qed
  next
    case False
    with Cons.prems(2) have run: "buildcase_loop w name ys (c, h) = (c', h')" by simp
    from False Cons.prems(3,4) have xin: "x \<in> set ys" by auto
    from Cons.IH[OF dys run xin Cons.prems(4)] show ?thesis .
  qed
qed

text \<open>
  Claim C10. \<open>buildcase\<close> changes the graph at the reference it is given and no
  other object of the store; the matrices and the variable list it returns are read
  from the graph it has changed. After the call the caller's graph holds, for every
  node that had out-degree 1, a dummy node and the edge of weight \<open>dummyweight\<close> to
  it; and when a node had out-degree 1 and the dummy names are new, the graph after
  the call differs from the graph before it.
\<close>

theorem buildcase_mutates_in_place:
  assumes dn: "distinct (nodes (st m_graph))"
    and run: "buildcase dummyweight m_graph name st = (res, st')"
  shows "(\<forall>r. r \<noteq> m_graph \<longrightarrow> st' r = st r) \<and>
     res = (T (to_numpy_matrix (st' m_graph) False), T (to_numpy_matrix (st' m_graph) True),
            nodes (st' m_graph)) \<and>
     (\<forall>node\<in>set (nodes (st m_graph)). out_degree (st m_graph) node = 1 \<longrightarrow>
        (\<exists>k. name @ str k \<in> set (nodes (st' m_graph)) \<and>
             weight (st' m_graph) node (name @ str k) = Some dummyweight)) \<and>
     ((\<exists>node\<in>set (nodes (st m_graph)). out_degree (st m_graph) node = 1) \<and>
      wf_graph (st m_graph) \<and> fresh_names name (st m_graph) \<longrightarrow>
        st' m_graph \<noteq> st m_graph)"
proof -
  let ?g = "st m_graph"
  let ?g' = "augmented dummyweight name ?g"
  from buildcase_store[OF run] have st': "st' = st(m_graph := ?g')"
    and res: "res = (T (to_numpy_matrix ?g' False), T (to_numpy_matrix ?g' True), nodes ?g')"
    by auto
  have g': "st' m_graph = ?g'" by (simp add: st')
  have a: "\<forall>r. r \<noteq> m_graph \<longrightarrow> st' r = st r" by (simp add: st')
  obtain c' h' where loop: "buildcase_loop dummyweight name (nodes ?g) (1, ?g) = (c', h')"
    by (cases "buildcase_loop dummyweight name (nodes ?g) (1, ?g)")
  have h': "?g' = h'" unfolding augmented_def loop by simp
  have c: "\<exists>k. name @ str k \<in> set (nodes ?g') \<and> weight ?g' node (name @ str k) = Some dummyweight"
    if "node \<in> set (nodes ?g)" "out_degree ?g node = 1" for node
    using buildcase_loop_edges[OF dn loop that] unfolding h' by blast
  have d: "?g' \<noteq> ?g"
    if ex: "\<exists>node\<in>set (nodes ?g). out_degree ?g node = 1" and wf: "wf_graph ?g"
      and fr: "fresh_names name ?g"
  proof
    assume eq: "?g' = ?g"
    from ex have "singles ?g (nodes ?g) \<noteq> []"
      by (auto simp: singles_def filter_empty_conv)
    then have "0 < length (singles ?g (nodes ?g))" by simp
    moreover have "length (nodes ?g') =
        length (nodes ?g) + (Suc (length (singles ?g (nodes ?g))) - 1)"
      unfolding augmented_char(1)[OF wf fr] by (simp only: length_append length_map length_upt)
    ultimately show False using eq by simp
  qed
  from a res c d show ?thesis unfolding g' by blast
qed

theorem buildcase_mutates_in_place_witness:
  "distinct (nodes [(''A'', [(''B'', 2)]), (''B'', [])]) \<and>
   snd (buildcase 5 0 ''DV'' (\<lambda>_. [(''A'', [(''B'', 2)]), (''B'', [])])) 0
     = [(''A'', [(''B'', 2), (''DV1'', 5)]), (''B'', []), (''DV1'', [])] \<and>
   (\<exists>k. ''DV'' @ str k \<in> set (nodes (snd (buildcase 5 0 ''DV'' (\<lambda>_. [(''A'', [(''B'', 2)]), (''B'', [])])) 0)) \<and>
        weight (snd (buildcase 5 0 ''DV'' (\<lambda>_. [(''A'', [(''B'', 2)]), (''B'', [])])) 0) ''A'' (''DV'' @ str k) = Some 5)"
proof -
  let ?g = "[(''A'', [(''B'', 2)]), (''B'', [])] :: digraph"
  let ?st = "(\<lambda>_. ?g) :: store"
  have dn: "distinct (nodes (?st 0))" by (simp add: nodes_def)
  have run: "buildcase 5 0 ''DV'' ?st = (fst (buildcase 5 0 ''DV'' ?st), snd (buildcase 5 0 ''DV'' ?st))"
    by simp
  have s1: "str (Suc 0) = ''1''" by (simp add: str.simps digit_char_def)
  have ev: "snd (buildcase 5 0 ''DV'' ?st) 0 = [(''A'', [(''B'', 2), (''DV1'', 5)]), (''B'', []), (''DV1'', [])]"
    by (simp add: buildcase_def Let_def graph_eval s1)
  have od: "out_degree (?st 0) ''A'' = 1" by (simp add: out_degree_def succ_def)
  have "\<forall>node\<in>set (nodes (?st 0)). out_degree (?st 0) node = 1 \<longrightarrow>
        (\<exists>k. ''DV'' @ str k \<in> set (nodes (snd (buildcase 5 0 ''DV'' ?st) 0)) \<and>
             weight (snd (buildcase 5 0 ''DV'' ?st) 0) node (''DV'' @ str k) = Some 5)"
    using buildcase_mutates_in_place[OF dn run] by blast
  then have "\<exists>k. ''DV'' @ str k \<in> set (nodes (snd (buildcase 5 0 ''DV'' ?st) 0)) \<and>
             weight (snd (buildcase 5 0 ''DV'' ?st) 0) ''A'' (''DV'' @ str k) = Some 5"
    using od by (simp add: nodes_def)
  with dn ev show ?thesis by simp
qed

subsection \<open>Backward ranking and forward ranking on the transpose\<close>

text \<open>
  Claim C7. \<open>rankbackward\<close> on the matrices and \<open>rankforward\<close> on the transposed
  matrices build the same graph and hand it to \<open>buildcase\<close> with the prefixes
  \<open>DV_backward\<close> and \<open>DV_forward\<close>; by their docstrings both give every node of
  out-degree 1 a second outgoing edge, to a dummy node. \<open>buildcase\<close> never checks
  that the name of a dummy is new. On the variable list \<open>[A, DV_forward1]\<close> with the
  backward edge from \<open>A\<close> to \<open>DV_forward1\<close>, \<open>rankbackward\<close> adds the node
  \<open>DV_backward1\<close> and returns matrices of dimension 3, while \<open>rankforward\<close> on the
  transposed matrices finds its dummy name taken, overwrites the weight of the edge
  that exists, and returns matrices of dimension 2: the two calls do not return the
  same matrices.
\<close>

theorem rankbackward_name_clash:
  "map_sum id (\<lambda>(connection, gain, variablelist).
       (nrows connection, ncols connection, nrows gain, ncols gain, set variablelist))
     (rankbackward [''A'', ''DV_forward1'']
        \<lparr>nrows = 2, ncols = 2, entry = (\<lambda>row col. if row = 0 \<and> col = 1 then 2 else 0)\<rparr>
        \<lparr>nrows = 2, ncols = 2, entry = (\<lambda>row col. if row = 0 \<and> col = 1 then 1 else 0)\<rparr> 5)
     = Inr (3, 3, 3, 3, {''A'', ''DV_forward1'', ''DV_backward1''}) \<and>
   map_sum id (\<lambda>(connection, gain, variablelist).
       (nrows connection, ncols connection, nrows gain, ncols gain, set variablelist))
     (rankforward [''A'', ''DV_forward1'']
        (T \<lparr>nrows = 2, ncols = 2, entry = (\<lambda>row col. if row = 0 \<and> col = 1 then 2 else 0)\<rparr>)
        (T \<lparr>nrows = 2, ncols = 2, entry = (\<lambda>row col. if row = 0 \<and> col = 1 then 1 else 0)\<rparr>) 5)
     = Inr (2, 2, 2, 2, {''A'', ''DV_forward1''}) \<and>
   map_sum id (\<lambda>(connection, gain, variablelist). (connection, gain))
     (rankbackward [''A'', ''DV_forward1'']
        \<lparr>nrows = 2, ncols = 2, entry = (\<lambda>row col. if row = 0 \<and> col = 1 then 2 else 0)\<rparr>
        \<lparr>nrows = 2, ncols = 2, entry = (\<lambda>row col. if row = 0 \<and> col = 1 then 1 else 0)\<rparr> 5)
   \<noteq> map_sum id (\<lambda>(connection, gain, variablelist). (connection, gain))
     (rankforward [''A'', ''DV_forward1'']
        (T \<lparr>nrows = 2, ncols = 2, entry = (\<lambda>row col. if row = 0 \<and> col = 1 then 2 else 0)\<rparr>)
        (T \<lparr>nrows = 2, ncols = 2, entry = (\<lambda>row col. if row = 0 \<and> col = 1 then 1 else 0)\<rparr>) 5)"
proof -
  have s1: "str (Suc 0) = ''1''" by (simp add: str.simps digit_char_def)
  let ?G = "\<lparr>nrows = 2, ncols = 2, entry = (\<lambda>row col. if row = 0 \<and> col = 1 then (2::real) else 0)\<rparr>"
  let ?C = "\<lparr>nrows = 2, ncols = 2, entry = (\<lambda>row col. if row = 0 \<and> col = 1 then (1::real) else 0)\<rparr>"
  let ?gb = "[(''A'', [(''DV_forward1'', 2), (''DV_backward1'', 5)]), (''DV_forward1'', []),
      (''DV_backward1'', [])] :: digraph"
  let ?gf = "[(''A'', [(''DV_forward1'', 5)]), (''DV_forward1'', [])] :: digraph"
  have g: "buildgraph [''A'', ''DV_forward1''] (T ?G) (T ?C) =
      Inr [(''A'', [(''DV_forward1'', 2)]), (''DV_forward1'', [])]"
    by (simp add: graph_eval T_def)
  have b: "rankbackward [''A'', ''DV_forward1''] ?G ?C 5 =
      Inr (T (to_numpy_matrix ?gb False), T (to_numpy_matrix ?gb True), nodes ?gb)"
    unfolding rankbackward_def g
    by (simp add: buildcase_def Let_def s1 add_edge_def add_node_def dict_set_def succ_def
        nodes_def out_degree_def)
  have f: "rankforward [''A'', ''DV_forward1''] (T ?G) (T ?C) 5 =
      Inr (T (to_numpy_matrix ?gf False), T (to_numpy_matrix ?gf True), nodes ?gf)"
    unfolding rankforward_def g
    by (simp add: buildcase_def Let_def s1 add_edge_def add_node_def dict_set_def succ_def
        nodes_def out_degree_def)
  have nb: "nrows (T (to_numpy_matrix ?gb w)) = 3" "ncols (T (to_numpy_matrix ?gb w)) = 3" for w
    by (simp_all add: T_def to_numpy_matrix_def nodes_def)
  have nf: "nrows (T (to_numpy_matrix ?gf w)) = 2" "ncols (T (to_numpy_matrix ?gf w)) = 2" for w
    by (simp_all add: T_def to_numpy_matrix_def nodes_def)
  have sb: "set (nodes ?gb) = {''A'', ''DV_forward1'', ''DV_backward1''}"
    by (simp add: nodes_def)
  have sf: "set (nodes ?gf) = {''A'', ''DV_forward1''}"
    by (simp add: nodes_def)
  have "nrows (T (to_numpy_matrix ?gb True)) \<noteq> nrows (T (to_numpy_matrix ?gf True))"
    unfolding nb nf by simp
  then have ne: "T (to_numpy_matrix ?gb True) \<noteq> T (to_numpy_matrix ?gf True)"
    by (rule contrapos_nn) (erule arg_cong)
  show ?thesis unfolding b f using nb nf sb sf ne by simp
qed

subsection \<open>Column normalisation of the gain matrix\<close>

lemma divide_col_simps [simp]:
  "nrows (divide_col M col c) = nrows M"
  "ncols (divide_col M col c) = ncols M"
  "entry (divide_col M col c) row j = (if j = col then entry M row j / c else entry M row j)"
  by (simp_all add: divide_col_def)



lemma normalise_gain_cols_shape:
  "normalise_gain_cols cols M = Inr M' \<Longrightarrow> nrows M' = nrows M \<and> ncols M' = ncols M"
proof (induction cols arbitrary: M)
  case Nil
  then show ?case by simp
next
  case (Cons c cols)
  show ?case
  proof (cases "colsum M c = 0")
    case True
    with Cons.prems have "normalise_gain_cols cols M = Inr M'" by (simp split: if_splits)
    from Cons.IH[OF this] show ?thesis .
  next
    case False
    with Cons.prems have "normalise_gain_cols cols (divide_col M c (colsum M c)) = Inr M'"
      by (simp split: if_splits)
    from Cons.IH[OF this] show ?thesis by simp
  qed
qed



subsection \<open>The ranking returned by \<open>calc_simple_rank\<close>\<close>

lemma complex_gt_trans_le: "\<not> complex_gt a b \<Longrightarrow> complex_gt c b \<Longrightarrow> \<not> complex_gt a c"
  by (auto simp: complex_gt_def)

lemma complex_gt_Re: "\<not> complex_gt a b \<Longrightarrow> Re a \<le> Re b"
  by (auto simp: complex_gt_def)

lemma argmax_loop_char:
  assumes "max_ind < length pre" "mp = pre ! max_ind"
    and "\<forall>k<length pre. \<not> complex_gt (pre ! k) mp"
  shows "argmax_loop max_ind mp (length pre) xs < length (pre @ xs) \<and>
     (\<forall>k<length (pre @ xs). \<not> complex_gt ((pre @ xs) ! k) ((pre @ xs) ! argmax_loop max_ind mp (length pre) xs))"
  using assms
proof (induction xs arbitrary: max_ind mp pre)
  case Nil
  then show ?case by simp
next
  case (Cons x xs)
  let ?pre = "pre @ [x]"
  show ?case
  proof (cases "complex_gt x mp")
    case True
    have a: "length pre < length ?pre" by simp
    have b: "x = ?pre ! length pre" by simp
    have c: "\<forall>k<length ?pre. \<not> complex_gt (?pre ! k) x"
    proof (intro allI impI)
      fix k assume "k < length ?pre"
      then consider "k < length pre" | "k = length pre" by fastforce
      then show "\<not> complex_gt (?pre ! k) x"
      proof cases
        case 1
        with Cons.prems(3) have "\<not> complex_gt (pre ! k) mp" by simp
        from complex_gt_trans_le[OF this True] 1 show ?thesis by (simp add: nth_append)
      next
        case 2
        then show ?thesis by (simp add: complex_gt_def)
      qed
    qed
    from Cons.IH[OF a b c] True show ?thesis by simp
  next
    case False
    have a: "max_ind < length ?pre" using Cons.prems(1) by simp
    have b: "mp = ?pre ! max_ind" using Cons.prems(1,2) by (simp add: nth_append)
    have c: "\<forall>k<length ?pre. \<not> complex_gt (?pre ! k) mp"
      using Cons.prems(3) False by (auto simp: nth_append less_Suc_eq)
    from Cons.IH[OF a b c] False show ?thesis by simp
  qed
qed

lemma argmax_char:
  assumes "argmax xs = Inr i"
  shows "i < length xs \<and> (\<forall>k<length xs. Re (xs ! k) \<le> Re (xs ! i))"
proof -
  from assms obtain x rest where xs: "xs = x # rest" and i: "i = argmax_loop 0 x 1 rest"
    by (auto simp: argmax_def split: list.splits)
  have "argmax_loop 0 x (length [x]) rest < length ([x] @ rest) \<and>
     (\<forall>k<length ([x] @ rest). \<not> complex_gt (([x] @ rest) ! k) (([x] @ rest) ! argmax_loop 0 x (length [x]) rest))"
    by (rule argmax_loop_char) (simp_all add: complex_gt_def)
  with xs i show ?thesis by (auto dest: complex_gt_Re)
qed

lemma fold_dict_set_append:
  "distinct (map fst ps) \<Longrightarrow> fst ` set d \<inter> fst ` set ps = {} \<Longrightarrow>
   fold (\<lambda>(k, v) d. dict_set d k v) ps d = d @ ps"
proof (induction ps arbitrary: d)
  case Nil
  then show ?case by simp
next
  case (Cons p ps)
  obtain k v where p: "p = (k, v)" by (cases p)
  from Cons.prems(2) p have "k \<notin> fst ` set d" by auto
  then have u: "dict_set d k v = d @ [(k, v)]" by (simp add: dict_set_def update_absent)
  have "fst ` set (d @ [(k, v)]) \<inter> fst ` set ps = {}"
    using Cons.prems p by auto
  with Cons.IH[of "d @ [(k, v)]"] Cons.prems(1) p u show ?case by simp
qed

lemma dict_zip_distinct: "distinct ks \<Longrightarrow> dict_zip ks vs = zip ks vs"
proof -
  assume d: "distinct ks"
  have "distinct (map fst (zip ks vs))"
    using d by (simp add: map_fst_zip_take)
  then show ?thesis unfolding dict_zip_def by (simp add: fold_dict_set_append)
qed

lemma sum_list_scaled: "sum_list (map (\<lambda>x. x / (c::real)) xs) = sum_list xs / c"
  by (induction xs) (auto simp: add_divide_distrib)

lemma rankarray_norm_char:
  assumes "rankarray_norm eigvec i = Inr scores"
  defines "column \<equiv> map (\<lambda>row. cmod (entry eigvec row i)) [0..<nrows eigvec]"
  shows "sum_list column \<noteq> 0" "scores = map (\<lambda>x. x / sum_list column) column"
    "sum_list scores = 1" "\<forall>x\<in>set scores. 0 \<le> x" "length scores = nrows eigvec"
proof -
  from assms(1) have nz: "sum_list column \<noteq> 0"
    and sc: "scores = map (\<lambda>x. (1 / sum_list column) * x) column"
    unfolding column_def by (auto simp: rankarray_norm_def Let_def split: if_splits)
  show "sum_list column \<noteq> 0" by (rule nz)
  show eq: "scores = map (\<lambda>x. x / sum_list column) column" using sc by simp
  show "sum_list scores = 1" unfolding eq sum_list_scaled using nz by simp
  have nn: "\<forall>x\<in>set column. 0 \<le> x" by (auto simp: column_def)
  then have "0 \<le> sum_list column" by (simp add: sum_list_nonneg)
  with nn show "\<forall>x\<in>set scores. 0 \<le> x" unfolding eq by auto
  show "length scores = nrows eigvec" unfolding eq by (simp add: column_def)
qed

lemma calc_simple_rank_Inr:
  assumes "calc_simple_rank lib gainmatrix variables m = Inr (rankingdict, rankinglist)"
  obtains gainmatrix' weightmatrix eigval eigvec eig_gain maxeigindex scores checks where
    "normalised_gain gainmatrix = Inr gainmatrix'"
    "blended_weight gainmatrix' (nrows (T gainmatrix)) m = Inr weightmatrix"
    "linalg_eig lib weightmatrix = Inr (eigval, eigvec)"
    "linalg_eig lib gainmatrix' = Inr eig_gain"
    "argmax eigval = Inr maxeigindex"
    "rankarray_norm eigvec maxeigindex = Inr scores"
    "centrality_checks lib variables weightmatrix gainmatrix' = Inr checks"
    "rankingdict = dict_zip variables scores"
    "rankinglist = sorted_by_score rankingdict"
  using assms unfolding calc_simple_rank_def
  by (auto split: sum.splits prod.splits)

lemma linalg_eig_Inr:
  "linalg_eig lib M = Inr r \<Longrightarrow> nrows M = ncols M \<and> eig lib M = Some r"
  by (auto simp: linalg_eig_def split: if_splits option.splits)

text \<open>
  Claim C2. Whenever \<open>calc_simple_rank\<close> returns on a duplicate-free variable list, it
  has taken the eigen-decomposition of the blended, column-normalised weight matrix,
  chosen an eigenvalue whose real part is the largest, taken the absolute values of
  the entries of the eigenvector at that index and divided them by their sum, so
  that the scores sum to 1; and the dictionary pairs the variables with the scores in
  order.
\<close>

theorem calc_simple_rank_eigenvector:
  assumes "calc_simple_rank lib gainmatrix variables m = Inr (rankingdict, rankinglist)"
    and "distinct variables"
  shows "\<exists>gainmatrix' weightmatrix eigval eigvec maxeigindex scores.
     normalised_gain gainmatrix = Inr gainmatrix' \<and>
     blended_weight gainmatrix' (nrows (T gainmatrix)) m = Inr weightmatrix \<and>
     eig lib weightmatrix = Some (eigval, eigvec) \<and>
     maxeigindex < length eigval \<and>
     (\<forall>k<length eigval. Re (eigval ! k) \<le> Re (eigval ! maxeigindex)) \<and>
     sum_list (map (\<lambda>row. cmod (entry eigvec row maxeigindex)) [0..<nrows eigvec]) \<noteq> 0 \<and>
     scores = map (\<lambda>row. cmod (entry eigvec row maxeigindex) /
                 sum_list (map (\<lambda>row. cmod (entry eigvec row maxeigindex)) [0..<nrows eigvec]))
               [0..<nrows eigvec] \<and>
     sum_list scores = 1 \<and>
     rankingdict = zip variables scores"
proof -
  from assms(1) obtain gainmatrix' weightmatrix eigval eigvec eig_gain maxeigindex scores checks where
    g: "normalised_gain gainmatrix = Inr gainmatrix'" and
    w: "blended_weight gainmatrix' (nrows (T gainmatrix)) m = Inr weightmatrix" and
    e: "linalg_eig lib weightmatrix = Inr (eigval, eigvec)" and
    a: "argmax eigval = Inr maxeigindex" and
    r: "rankarray_norm eigvec maxeigindex = Inr scores" and
    d: "rankingdict = dict_zip variables scores"
    by (rule calc_simple_rank_Inr)
  from linalg_eig_Inr[OF e] have e': "eig lib weightmatrix = Some (eigval, eigvec)" by simp
  note am = argmax_char[OF a]
  note rc = rankarray_norm_char[OF r]
  have sc: "scores = map (\<lambda>row. cmod (entry eigvec row maxeigindex) /
                 sum_list (map (\<lambda>row. cmod (entry eigvec row maxeigindex)) [0..<nrows eigvec]))
               [0..<nrows eigvec]"
    using rc(2) by (simp add: comp_def)
  have dz: "rankingdict = zip variables scores" using d dict_zip_distinct[OF assms(2)] by simp
  from g w e' am rc(1) sc rc(3) dz show ?thesis by blast
qed

lemma madd_nrows: "madd A B = Inr C \<Longrightarrow> nrows A = nrows B \<Longrightarrow> nrows C = nrows A"
  by (auto simp: madd_def broadcast_dim_def split: option.splits if_splits)

lemma normalise_weight_cols_shape:
  "normalise_weight_cols cols M = Inr M' \<Longrightarrow> nrows M' = nrows M \<and> ncols M' = ncols M"
proof (induction cols arbitrary: M)
  case Nil
  then show ?case by simp
next
  case (Cons c cols)
  from Cons.prems have "normalise_weight_cols cols (divide_col M c (colsum M c)) = Inr M'"
    by (simp split: if_splits)
  from Cons.IH[OF this] show ?case by simp
qed

lemma normalised_gain_shape:
  "normalised_gain G = Inr G' \<Longrightarrow> nrows G' = ncols G \<and> ncols G' = nrows G"
  using normalise_gain_cols_shape[of "[0..<nrows (T G)]" "T G" G']
  by (simp add: normalised_gain_def T_def)

lemma blended_weight_nrows:
  assumes "blended_weight G' n m = Inr W" "nrows G' = n"
  shows "nrows W = n"
proof -
  from assms(1) obtain W0 where a: "madd (smult m G') (smult (1 - m) (resetmatrix n)) = Inr W0"
    and b: "normalise_weight_cols [0..<n] W0 = Inr W"
    by (auto simp: blended_weight_def split: sum.splits)
  have "nrows (smult m G') = nrows (smult (1 - m) (resetmatrix n))"
    using assms(2) by (simp add: smult_def resetmatrix_def)
  from madd_nrows[OF a this] have "nrows W0 = n" using assms(2) by (simp add: smult_def)
  with normalise_weight_cols_shape[OF b] show ?thesis by simp
qed

lemma centrality_rows_index:
  "(row, v) \<in> set rows \<Longrightarrow> nrows W \<le> row \<Longrightarrow>
   centrality_rows W G col colvar rows graphs \<noteq> Inr r"
proof (induction rows arbitrary: graphs)
  case Nil
  then show ?case by simp
next
  case (Cons p rows)
  obtain row' v' where p: "p = (row', v')" by (cases p)
  obtain wg gg where gr: "graphs = (wg, gg)" by (cases graphs)
  show ?case
  proof (cases "p = (row, v)")
    case True
    with p Cons.prems(2) have "mget W row' col = Inl IndexError" by (simp add: mget_def)
    then show ?thesis unfolding p gr by simp
  next
    case False
    with Cons.prems(1) have "(row, v) \<in> set rows" by simp
    from Cons.IH[OF this Cons.prems(2)] show ?thesis
      unfolding p gr by (auto split: sum.splits)
  qed
qed

lemma centrality_checks_index:
  assumes "nrows W < length variables"
  shows "centrality_checks lib variables W G \<noteq> Inr r"
proof
  assume a: "centrality_checks lib variables W G = Inr r"
  from assms obtain v0 rest where vs: "variables = v0 # rest" by (cases variables) auto
  have mem: "(nrows W, variables ! nrows W) \<in> set (List.enumerate 0 variables)"
    using assms by (simp add: in_set_enumerate_eq)
  from a obtain gr where "centrality_cols variables W G (List.enumerate 0 variables) (DiGraph, DiGraph) = Inr gr"
    by (auto simp: centrality_checks_def split: sum.splits)
  then obtain gr' where "centrality_rows W G 0 v0 (List.enumerate 0 variables) (DiGraph, DiGraph) = Inr gr'"
    unfolding vs by (auto split: sum.splits)
  with centrality_rows_index[OF mem le_refl] show False by blast
qed

text \<open>
  Claim C6, as the code has it. \<open>calc_simple_rank\<close> raises an error on every gain
  matrix that is not square, and on every square gain matrix with a variable list
  longer than its dimension. (A variable list shorter than the dimension is not
  checked.)
\<close>

theorem calc_simple_rank_shape_errors:
  "(nrows gainmatrix \<noteq> ncols gainmatrix \<longrightarrow>
      (\<exists>e. calc_simple_rank lib gainmatrix variables m = Inl e)) \<and>
   (nrows gainmatrix = ncols gainmatrix \<and> ncols gainmatrix < length variables \<longrightarrow>
      (\<exists>e. calc_simple_rank lib gainmatrix variables m = Inl e))"
proof (intro conjI impI)
  assume ns: "nrows gainmatrix \<noteq> ncols gainmatrix"
  show "\<exists>e. calc_simple_rank lib gainmatrix variables m = Inl e"
  proof (cases "calc_simple_rank lib gainmatrix variables m")
    case (Inl e)
    then show ?thesis by blast
  next
    case (Inr r)
    obtain d l where r: "r = (d, l)" by (cases r)
    from Inr[unfolded r] obtain gainmatrix' eig_gain where
      g: "normalised_gain gainmatrix = Inr gainmatrix'" and
      e: "linalg_eig lib gainmatrix' = Inr eig_gain"
      by (rule calc_simple_rank_Inr)
    from normalised_gain_shape[OF g] linalg_eig_Inr[OF e] ns show ?thesis by simp
  qed
next
  assume sq: "nrows gainmatrix = ncols gainmatrix \<and> ncols gainmatrix < length variables"
  show "\<exists>e. calc_simple_rank lib gainmatrix variables m = Inl e"
  proof (cases "calc_simple_rank lib gainmatrix variables m")
    case (Inl e)
    then show ?thesis by blast
  next
    case (Inr r)
    obtain d l where r: "r = (d, l)" by (cases r)
    from Inr[unfolded r] obtain gainmatrix' weightmatrix checks where
      g: "normalised_gain gainmatrix = Inr gainmatrix'" and
      w: "blended_weight gainmatrix' (nrows (T gainmatrix)) m = Inr weightmatrix" and
      c: "centrality_checks lib variables weightmatrix gainmatrix' = Inr checks"
      by (rule calc_simple_rank_Inr)
    have n: "nrows (T gainmatrix) = ncols gainmatrix" by (simp add: T_def)
    from normalised_gain_shape[OF g] have "nrows gainmatrix' = nrows (T gainmatrix)" by (simp add: n)
    from blended_weight_nrows[OF w this] have "nrows weightmatrix = ncols gainmatrix" by (simp add: n)
    with sq have "nrows weightmatrix < length variables" by simp
    from centrality_checks_index[OF this] c show ?thesis by blast
  qed
qed

lemmas rank_eval =
  calc_simple_rank_def normalised_gain_def blended_weight_def T_def colsum_def divide_col_def
  resetmatrix_def smult_def madd_def broadcast_dim_def linalg_eig_def argmax_def complex_gt_def
  rankarray_norm_def dict_zip_def centrality_checks_def norm_dict_def dict_values_def
  dict_set_def mget_def enumerate_eq_zip upt_rec Let_def sorted_by_score_def
  example_gain_def example_eigvec_def example_lib_def

lemma example_run:
  "calc_simple_rank (example_lib [(''a'', 0), (''b'', 1)]) example_gain [''a'', ''b''] 1 =
     Inr ([(''a'', 0), (''b'', 1)], [(''b'', 1), (''a'', 0)])"
  by (simp add: rank_eval)

text \<open>
  A square gain matrix of dimension 2 with the one-variable list \<open>[a]\<close>:
  \<open>calc_simple_rank\<close> returns, with the first entry of the eigenvector as the only
  score.
\<close>

theorem calc_simple_rank_short_list_counterexample:
  "nrows example_gain = 2 \<and> ncols example_gain = 2 \<and> length [''a''] = 1 \<and>
   calc_simple_rank (example_lib [(''a'', 1)]) example_gain [''a''] 1 =
     Inr ([(''a'', 0)], [(''a'', 0)])"
  by (simp add: rank_eval)

theorem calc_simple_rank_shape_errors_witness:
  "nrows \<lparr>nrows = 1, ncols = 2, entry = (\<lambda>row col. 1 :: real)\<rparr>
     \<noteq> ncols \<lparr>nrows = 1, ncols = 2, entry = (\<lambda>row col. 1 :: real)\<rparr> \<and>
   (\<exists>e. calc_simple_rank (example_lib [(''a'', 1)])
           \<lparr>nrows = 1, ncols = 2, entry = (\<lambda>row col. 1)\<rparr> [''a''] 1 = Inl e) \<and>
   nrows example_gain = ncols example_gain \<and>
   ncols example_gain < length [''a'', ''b'', ''c''] \<and>
   (\<exists>e. calc_simple_rank (example_lib [(''a'', 0), (''b'', 1)]) example_gain
           [''a'', ''b'', ''c''] 1 = Inl e)"
proof -
  let ?G = "\<lparr>nrows = 1, ncols = 2, entry = (\<lambda>row col. 1 :: real)\<rparr>"
  have h1: "nrows ?G \<noteq> ncols ?G" by simp
  have h2: "nrows example_gain = ncols example_gain \<and> ncols example_gain < length [''a'', ''b'', ''c'']"
    by (simp add: example_gain_def)
  have a: "\<exists>e. calc_simple_rank (example_lib [(''a'', 1)]) ?G [''a''] 1 = Inl e"
    using calc_simple_rank_shape_errors[of ?G "example_lib [(''a'', 1)]" "[''a'']" 1] h1 by blast
  have b: "\<exists>e. calc_simple_rank (example_lib [(''a'', 0), (''b'', 1)]) example_gain
           [''a'', ''b'', ''c''] 1 = Inl e"
    using calc_simple_rank_shape_errors[of example_gain "example_lib [(''a'', 0), (''b'', 1)]"
        "[''a'', ''b'', ''c'']" 1] h2 by blast
  from h1 h2 a b show ?thesis by blast
qed

theorem calc_simple_rank_eigenvector_witness:
  "distinct [''a'', ''b''] \<and>
   calc_simple_rank (example_lib [(''a'', 0), (''b'', 1)]) example_gain [''a'', ''b''] 1 =
     Inr ([(''a'', 0), (''b'', 1)], [(''b'', 1), (''a'', 0)]) \<and>
   (\<exists>scores :: real list. sum_list scores = 1 \<and> [(''a'', 0), (''b'', 1)] = zip [''a'', ''b''] scores)"
proof -
  have d: "distinct [''a'', ''b'']" by simp
  from calc_simple_rank_eigenvector[OF example_run d]
  obtain scores :: "real list" where
    "sum_list scores = 1" "[(''a'', 0), (''b'', 1)] = zip [''a'', ''b''] scores"
    by (elim exE conjE)
  then have "\<exists>scores. sum_list scores = 1 \<and> [(''a'', 0), (''b'', 1 :: real)] = zip [''a'', ''b''] scores"
    by (intro exI[of _ scores] conjI)
  with d example_run show ?thesis by (intro conjI)
qed


subsection \<open>Normalisation of the scores\<close>

lemma simple_nonneg_sum:
  assumes run: "calc_simple_rank lib gainmatrix variables m = Inr (d, l)"
    and dist: "distinct variables" and len: "length variables = ncols gainmatrix"
    and lib: "\<forall>M ev evec. eig lib M = Some (ev, evec) \<longrightarrow> nrows evec = nrows M"
  shows "map fst d = variables \<and> (\<forall>s\<in>set (dict_values d). 0 \<le> s) \<and> sum_list (dict_values d) = 1"
proof -
  from run obtain gainmatrix' weightmatrix eigval eigvec maxeigindex scores where
    g: "normalised_gain gainmatrix = Inr gainmatrix'" and
    w: "blended_weight gainmatrix' (nrows (T gainmatrix)) m = Inr weightmatrix" and
    e: "linalg_eig lib weightmatrix = Inr (eigval, eigvec)" and
    r: "rankarray_norm eigvec maxeigindex = Inr scores" and
    dz: "d = dict_zip variables scores"
    by (rule calc_simple_rank_Inr)
  have n: "nrows (T gainmatrix) = ncols gainmatrix" by (simp add: T_def)
  from normalised_gain_shape[OF g] have "nrows gainmatrix' = nrows (T gainmatrix)" by (simp add: n)
  from blended_weight_nrows[OF w this] have nw: "nrows weightmatrix = ncols gainmatrix" by (simp add: n)
  from linalg_eig_Inr[OF e] lib have "nrows eigvec = nrows weightmatrix" by blast
  with nw rankarray_norm_char(5)[OF r] len have ls: "length scores = length variables" by simp
  have d: "d = zip variables scores" using dz dict_zip_distinct[OF dist] by simp
  have k: "map fst d = variables" and v: "dict_values d = scores"
    unfolding d dict_values_def using ls by simp_all
  from rankarray_norm_char(3,4)[OF r] k v show ?thesis by simp
qed

lemma blended_nonneg_sum:
  fixes alpha :: real
  assumes dist: "distinct vs"
    and keys: "\<forall>v\<in>set vs. v \<in> fst ` set fr \<and> v \<in> fst ` set br"
    and nz: "sum_list (map (\<lambda>v. \<bar>(1 - alpha) * the (map_of fr v) + alpha * the (map_of br v)\<bar>) vs) \<noteq> 0"
  shows "\<exists>scores l. calc_blended_rank fr br vs alpha = Inr (zip vs (map Fin scores), l) \<and>
     length scores = length vs \<and> (\<forall>s\<in>set scores. 0 \<le> s) \<and> sum_list scores = (1::real)"
proof -
  let ?g = "\<lambda>v. \<bar>(1 - alpha) * the (map_of fr v) + alpha * the (map_of br v)\<bar>"
  let ?t = "sum_list (map ?g vs)"
  let ?scores = "map (\<lambda>v. ?g v / ?t) vs"
  from calc_blended_rank_result[OF dist keys, where alpha = alpha]
  obtain l where r: "calc_blended_rank fr br vs alpha =
      Inr (map (\<lambda>v. (v, np_divide (Fin (?g v)) ?t)) vs, l)"
    by (elim exE)
  have m: "map (\<lambda>v. (v, np_divide (Fin (?g v)) ?t)) vs = zip vs (map Fin ?scores)"
    using nz by (simp add: zip_map2 zip_same_conv_map np_divide_def comp_def)
  have nn: "0 \<le> ?t" by (rule sum_list_nonneg) auto
  have p: "\<forall>s\<in>set ?scores. 0 \<le> s" using nn by auto
  have "sum_list ?scores = ?t / ?t" by (rule sum_list_divide)
  with nz have s: "sum_list ?scores = 1" by simp
  have len: "length ?scores = length vs" by simp
  from r m have r': "calc_blended_rank fr br vs alpha = Inr (zip vs (map Fin ?scores), l)"
    by simp
  show ?thesis
    by (rule exI[of _ ?scores], rule exI[of _ l]) (intro conjI r' len p s)
qed

text \<open>
  Claim C1, as the code has it. When \<open>calc_simple_rank\<close> returns finite scores on a
  duplicate-free variable list as long as the dimension of the gain matrix (the
  eigenvector matrix having the dimension of the matrix decomposed), the dictionary
  returned has the variables of the list as keys, every score is non-negative, and
  the scores sum to 1. On a duplicate-free list of variables that are keys of both
  ranking dictionaries and whose blended scores are not all zero,
  \<open>calc_blended_rank\<close> returns, and the dictionary returned pairs the variables of the
  list, in order, with finite non-negative scores that sum to 1.
\<close>

theorem ranking_scores_normalised:
  "(calc_simple_rank lib gainmatrix variables m = Inr (rankingdict, rankinglist) \<and>
    distinct variables \<and> length variables = ncols gainmatrix \<and>
    (\<forall>M ev evec. eig lib M = Some (ev, evec) \<longrightarrow> nrows evec = nrows M) \<longrightarrow>
      map fst rankingdict = variables \<and>
      (\<forall>s\<in>set (dict_values rankingdict). 0 \<le> s) \<and>
      sum_list (dict_values rankingdict) = 1) \<and>
   (distinct variablelist \<and>
    (\<forall>v\<in>set variablelist. v \<in> fst ` set forwardrank \<and> v \<in> fst ` set backwardrank) \<and>
    sum_list (map (\<lambda>v. \<bar>(1 - alpha) * the (map_of forwardrank v) +
        alpha * the (map_of backwardrank v)\<bar>) variablelist) \<noteq> 0 \<longrightarrow>
      (\<exists>scores blendedlist.
         calc_blended_rank forwardrank backwardrank variablelist alpha =
           Inr (zip variablelist (map Fin scores), blendedlist) \<and>
         length scores = length variablelist \<and>
         (\<forall>s\<in>set scores. 0 \<le> s) \<and> sum_list scores = (1::real)))"
proof (rule conjI)
  show "calc_simple_rank lib gainmatrix variables m = Inr (rankingdict, rankinglist) \<and>
    distinct variables \<and> length variables = ncols gainmatrix \<and>
    (\<forall>M ev evec. eig lib M = Some (ev, evec) \<longrightarrow> nrows evec = nrows M) \<longrightarrow>
      map fst rankingdict = variables \<and>
      (\<forall>s\<in>set (dict_values rankingdict). 0 \<le> s) \<and>
      sum_list (dict_values rankingdict) = 1"
  proof (rule impI, elim conjE)
    assume "calc_simple_rank lib gainmatrix variables m = Inr (rankingdict, rankinglist)"
      "distinct variables" "length variables = ncols gainmatrix"
      "\<forall>M ev evec. eig lib M = Some (ev, evec) \<longrightarrow> nrows evec = nrows M"
    then show "map fst rankingdict = variables \<and>
      (\<forall>s\<in>set (dict_values rankingdict). 0 \<le> s) \<and>
      sum_list (dict_values rankingdict) = 1" by (rule simple_nonneg_sum)
  qed
  show "distinct variablelist \<and>
    (\<forall>v\<in>set variablelist. v \<in> fst ` set forwardrank \<and> v \<in> fst ` set backwardrank) \<and>
    sum_list (map (\<lambda>v. \<bar>(1 - alpha) * the (map_of forwardrank v) +
        alpha * the (map_of backwardrank v)\<bar>) variablelist) \<noteq> 0 \<longrightarrow>
      (\<exists>scores blendedlist.
         calc_blended_rank forwardrank backwardrank variablelist alpha =
           Inr (zip variablelist (map Fin scores), blendedlist) \<and>
         length scores = length variablelist \<and>
         (\<forall>s\<in>set scores. 0 \<le> s) \<and> sum_list scores = (1::real))"
  proof (rule impI, elim conjE)
    assume "distinct variablelist"
      "\<forall>v\<in>set variablelist. v \<in> fst ` set forwardrank \<and> v \<in> fst ` set backwardrank"
      "sum_list (map (\<lambda>v. \<bar>(1 - alpha) * the (map_of forwardrank v) +
        alpha * the (map_of backwardrank v)\<bar>) variablelist) \<noteq> 0"
    then show "\<exists>scores blendedlist.
         calc_blended_rank forwardrank backwardrank variablelist alpha =
           Inr (zip variablelist (map Fin scores), blendedlist) \<and>
         length scores = length variablelist \<and>
         (\<forall>s\<in>set scores. 0 \<le> s) \<and> sum_list scores = (1::real)" by (rule blended_nonneg_sum)
  qed
qed

text \<open>
  On the empty variable list \<open>calc_blended_rank\<close> returns the empty dictionary, which
  has no scores: their sum is 0.
\<close>

theorem calc_blended_rank_empty_counterexample:
  "calc_blended_rank [] [] [] (1 / 2) = Inr ([], []) \<and>
   dict_values ([] :: npfloat dict) = [] \<and> sum_list ([] :: real list) \<noteq> 1"
  by (simp add: calc_blended_rank_def dict_values_def sorted_by_npscore_def)

lemma example_square_run:
  "calc_simple_rank (example_square_lib [(''a'', 0), (''b'', 1)]) example_gain [''a'', ''b''] 1 =
     Inr ([(''a'', 0), (''b'', 1)], [(''b'', 1), (''a'', 0)])"
  by (simp add: rank_eval example_square_lib_def)

theorem ranking_scores_normalised_witness:
  "calc_simple_rank (example_square_lib [(''a'', 0), (''b'', 1)]) example_gain [''a'', ''b''] 1 =
     Inr ([(''a'', 0), (''b'', 1)], [(''b'', 1), (''a'', 0)]) \<and>
   distinct [''a'', ''b''] \<and> length [''a'', ''b''] = ncols example_gain \<and>
   map fst [(''a'', 0), (''b'', 1 :: real)] = [''a'', ''b''] \<and>
   sum_list (dict_values [(''a'', 0), (''b'', 1 :: real)]) = 1 \<and>
   sum_list (map (\<lambda>v. \<bar>(1 - 1 / 2) * the (map_of [(''a'', 1 / 4), (''b'', 3 / 4 :: real)] v) +
        1 / 2 * the (map_of [(''a'', 3 / 4), (''b'', 1 / 4)] v)\<bar>) [''a'', ''b'']) \<noteq> 0 \<and>
   (\<exists>scores blendedlist.
      calc_blended_rank [(''a'', 1 / 4), (''b'', 3 / 4)] [(''a'', 3 / 4), (''b'', 1 / 4)]
          [''a'', ''b''] (1 / 2) = Inr (zip [''a'', ''b''] (map Fin scores), blendedlist) \<and>
      length scores = length [''a'', ''b''] \<and> sum_list scores = (1::real))"
proof -
  let ?lib = "example_square_lib [(''a'', 0), (''b'', 1)]"
  let ?fr = "[(''a'', 1 / 4), (''b'', 3 / 4 :: real)]"
  let ?br = "[(''a'', 3 / 4), (''b'', 1 / 4 :: real)]"
  have d: "distinct [''a'', ''b'']" by simp
  have len: "length [''a'', ''b''] = ncols example_gain" by (simp add: example_gain_def)
  have lib: "\<forall>M ev evec. eig ?lib M = Some (ev, evec) \<longrightarrow> nrows evec = nrows M"
    by (simp add: example_square_lib_def example_eigvec_def)
  have keys: "\<forall>v\<in>set [''a'', ''b'']. v \<in> fst ` set ?fr \<and> v \<in> fst ` set ?br" by simp
  have nz: "sum_list (map (\<lambda>v. \<bar>(1 - 1 / 2) * the (map_of ?fr v) +
        1 / 2 * the (map_of ?br v)\<bar>) [''a'', ''b'']) \<noteq> 0" by simp
  note t = ranking_scores_normalised[of ?lib example_gain "[''a'', ''b'']" 1
      "[(''a'', 0), (''b'', 1)]" "[(''b'', 1), (''a'', 0)]" "[''a'', ''b'']" ?fr ?br "1 / 2"]
  have pre1: "calc_simple_rank ?lib example_gain [''a'', ''b''] 1 =
       Inr ([(''a'', 0), (''b'', 1)], [(''b'', 1), (''a'', 0)]) \<and>
     distinct [''a'', ''b''] \<and> length [''a'', ''b''] = ncols example_gain \<and>
     (\<forall>M ev evec. eig ?lib M = Some (ev, evec) \<longrightarrow> nrows evec = nrows M)"
    by (intro conjI example_square_run d len lib)
  note c1 = t[THEN conjunct1, THEN mp, OF pre1]
  have k1: "map fst [(''a'', 0), (''b'', 1 :: real)] = [''a'', ''b'']"
    by (rule c1[THEN conjunct1])
  have s1: "sum_list (dict_values [(''a'', 0), (''b'', 1 :: real)]) = 1"
    by (rule c1[THEN conjunct2, THEN conjunct2])
  have pre2: "distinct [''a'', ''b''] \<and>
     (\<forall>v\<in>set [''a'', ''b'']. v \<in> fst ` set ?fr \<and> v \<in> fst ` set ?br) \<and>
     sum_list (map (\<lambda>v. \<bar>(1 - 1 / 2) * the (map_of ?fr v) +
        1 / 2 * the (map_of ?br v)\<bar>) [''a'', ''b'']) \<noteq> 0"
    by (intro conjI d keys nz)
  from t[THEN conjunct2, THEN mp, OF pre2]
  obtain scores blendedlist where
    r: "calc_blended_rank ?fr ?br [''a'', ''b''] (1 / 2) =
          Inr (zip [''a'', ''b''] (map Fin scores), blendedlist)"
    and l: "length scores = length [''a'', ''b'']" and s: "sum_list scores = 1"
    by (elim exE conjE)
  have b: "\<exists>scores blendedlist.
      calc_blended_rank ?fr ?br [''a'', ''b''] (1 / 2) =
        Inr (zip [''a'', ''b''] (map Fin scores), blendedlist) \<and>
      length scores = length [''a'', ''b''] \<and> sum_list scores = (1::real)"
    by (rule exI[of _ scores], rule exI[of _ blendedlist]) (intro conjI r l s)
  from example_square_run d len k1 s1 nz b show ?thesis by (intro conjI)
qed

end
